theory Spec2Isabelle
  imports Main "HOL-Library.Sublist"
begin

section \<open>Subtitle entries\<close>

text \<open>
  The dataclass \<^verbatim>\<open>SubtitleEntry\<close> of \<^verbatim>\<open>subtitle_cleaner.py\<close>. A Python string is a
  sequence of code points; a \<^typ>\<open>char\<close> stands for a code point below 256, which covers
  every character the block pattern and the cleaner distinguish below that bound.
\<close>

record SubtitleEntry =
  number :: int
  start_time :: string
  end_time :: string
  text_lines :: "string list"

text \<open>
  \<^verbatim>\<open>str.isspace\<close> on one code point below 256: tab to carriage return, the four
  separators 28 to 31, the space, NEL (133) and the no-break space (160).
\<close>

definition isspace :: "char \<Rightarrow> bool" where
  "isspace c =
     (let n = (of_char c :: nat)
      in (9 \<le> n \<and> n \<le> 13) \<or> (28 \<le> n \<and> n \<le> 32) \<or> n = 133 \<or> n = 160)"

text \<open>\<^verbatim>\<open>line.strip()\<close>: whitespace removed at both ends.\<close>

definition strip :: "string \<Rightarrow> string" where
  "strip s = rev (dropWhile isspace (rev (dropWhile isspace s)))"

text \<open>
  \<^verbatim>\<open>is_empty\<close>: \<^verbatim>\<open>not any(line.strip() for line in self.text_lines)\<close>; a string is true
  when it is not the empty string.
\<close>

definition is_empty :: "SubtitleEntry \<Rightarrow> bool" where
  "is_empty e = (\<not> list_ex (\<lambda>line. strip line \<noteq> []) (text_lines e))"

text \<open>\<^verbatim>\<open>get_cleaned_lines\<close>: \<^verbatim>\<open>[line for line in self.text_lines if line.strip()]\<close>.\<close>

definition get_cleaned_lines :: "SubtitleEntry \<Rightarrow> string list" where
  "get_cleaned_lines e = filter (\<lambda>line. strip line \<noteq> []) (text_lines e)"

section \<open>One pass of duplicate removal\<close>

text \<open>
  \<^verbatim>\<open>remove_duplicates\<close> walks the indices \<^verbatim>\<open>1 .. len(entries) - 1\<close>. The entries are
  objects: the assignment to \<^verbatim>\<open>current.text_lines\<close> changes the object that the input
  list holds at index \<^verbatim>\<open>i\<close>, and the next iteration reads that object as \<^verbatim>\<open>prev\<close>.
  The state of the loop is therefore the pair of the input list with its objects in their
  present state, and the result list. The objects of the list are taken to be pairwise
  distinct, as they are when \<^verbatim>\<open>parse_srt\<close> built the list.
\<close>

type_synonym rd_state = "SubtitleEntry list \<times> SubtitleEntry list"

text \<open>\<^verbatim>\<open>current.text_lines[1:] if len(current.text_lines) > 1 else []\<close>\<close>

definition drop_first_line :: "SubtitleEntry \<Rightarrow> SubtitleEntry" where
  "drop_first_line current =
     current\<lparr>text_lines :=
       (if length (text_lines current) > 1 then drop 1 (text_lines current) else [])\<rparr>"

text \<open>The body of the \<^verbatim>\<open>for\<close> loop at index \<open>i\<close> (source lines 84 to 105).\<close>

definition rd_step :: "nat \<Rightarrow> rd_state \<Rightarrow> rd_state" where
  "rd_step i st =
     (let entries = fst st; result = snd st;
          prev = entries ! (i - 1);
          current = entries ! i
      in if is_empty prev \<or> is_empty current then (entries, result @ [current])
         else
           let prev_lines = get_cleaned_lines prev;
               current_lines = get_cleaned_lines current
           in if current_lines \<noteq> [] \<and> prev_lines \<noteq> [] \<and> hd current_lines = last prev_lines
              then
                let current' = drop_first_line current;
                    entries' = entries[i := current']
                in if is_empty current' then (entries', result)
                   else (entries', result @ [current'])
              else (entries, result @ [current]))"

text \<open>The state of the loop when iteration \<open>i\<close> starts (\<open>1 \<le> i\<close>), for a non-empty input.\<close>

definition rd_state_at :: "SubtitleEntry list \<Rightarrow> nat \<Rightarrow> rd_state" where
  "rd_state_at entries i = fold rd_step [1..<i] (entries, [entries ! 0])"

definition remove_duplicates :: "SubtitleEntry list \<Rightarrow> SubtitleEntry list" where
  "remove_duplicates entries =
     (if entries = [] then [] else snd (rd_state_at entries (length entries)))"

text \<open>The object bound to \<^verbatim>\<open>prev\<close> at source line 84 in iteration \<open>i\<close>.\<close>

definition prev_read :: "SubtitleEntry list \<Rightarrow> nat \<Rightarrow> SubtitleEntry" where
  "prev_read entries i = fst (rd_state_at entries i) ! (i - 1)"

text \<open>The last non-empty line of an entry, when it has one.\<close>

definition last_nonempty :: "SubtitleEntry \<Rightarrow> string option" where
  "last_nonempty e = (if is_empty e then None else Some (last (get_cleaned_lines e)))"

definition first_nonempty :: "SubtitleEntry \<Rightarrow> string option" where
  "first_nonempty e = (if is_empty e then None else Some (hd (get_cleaned_lines e)))"

section \<open>Repeated passes\<close>

text \<open>
  The loop \<^verbatim>\<open>for _ in range(5)\<close> of \<^verbatim>\<open>perform_deep_cleaning\<close>, with the number of
  remaining rounds as the argument.
\<close>

fun clean_loop :: "nat \<Rightarrow> SubtitleEntry list \<Rightarrow> SubtitleEntry list" where
  "clean_loop 0 cleaned = cleaned"
| "clean_loop (Suc n) cleaned =
     (let prev_count = length cleaned;
          cleaned' = remove_duplicates cleaned
      in if length cleaned' = prev_count then cleaned' else clean_loop n cleaned')"

text \<open>\<^verbatim>\<open>for i, entry in enumerate(cleaned, 1): entry.number = i\<close>\<close>

fun renumber :: "int \<Rightarrow> SubtitleEntry list \<Rightarrow> SubtitleEntry list" where
  "renumber i [] = []"
| "renumber i (entry # rest) = entry\<lparr>number := i\<rparr> # renumber (i + 1) rest"

definition perform_deep_cleaning :: "SubtitleEntry list \<Rightarrow> SubtitleEntry list" where
  "perform_deep_cleaning entries =
     (let cleaned = clean_loop 5 entries;
          cleaned = filter (\<lambda>entry. \<not> is_empty entry) cleaned
      in renumber 1 cleaned)"

text \<open>
  The number of calls of \<^verbatim>\<open>remove_duplicates\<close> that the loop of \<open>clean_loop\<close> makes: a
  counter beside the loop, which follows the same branches.
\<close>

fun rd_calls :: "nat \<Rightarrow> SubtitleEntry list \<Rightarrow> nat" where
  "rd_calls 0 cleaned = 0"
| "rd_calls (Suc n) cleaned =
     (if length (remove_duplicates cleaned) = length cleaned then 1
      else 1 + rd_calls n (remove_duplicates cleaned))"

section \<open>The block pattern\<close>

text \<open>
  \<^verbatim>\<open>parse_srt\<close> scans the content with \<^verbatim>\<open>re.finditer\<close> for the pattern
  \<^verbatim>\<open>(\d+)\s*\n(\d{2}:\d{2}:\d{2},\d{3})\s*-->\s*(\d{2}:\d{2}:\d{2},\d{3})\s*\n((?:.+\n?)+?)(?:\n\s*\n|$)\<close>
  under \<^verbatim>\<open>re.MULTILINE\<close>. The constructs the pattern uses are the constructors of
  \<open>regex\<close>; a counted repetition \<^verbatim>\<open>\d{2}\<close> is written out as a sequence.
\<close>

abbreviation nl :: char where
  "nl \<equiv> CHR 0x0A"

text \<open>\<^verbatim>\<open>\d\<close> on a code point below 256: the ten ASCII digits.\<close>

definition isdigit :: "char \<Rightarrow> bool" where
  "isdigit c = (let n = (of_char c :: nat) in 48 \<le> n \<and> n \<le> 57)"

datatype regex =
    Digit
  | Space
  | AnyChar
  | Lit char
  | EndOfLine
  | Seq regex regex
  | Alt regex regex
  | Opt regex
  | Star regex
  | Plus regex
  | LazyPlus regex
  | Group nat regex

text \<open>
  The matcher of \<^verbatim>\<open>re\<close> is a backtracking search. A state of the search is the list of
  the groups captured so far (the latest first) and the input that is left. \<open>ms r st\<close>
  lists every state in which an attempt to match \<open>r\<close> from \<open>st\<close> can end, in the order
  in which the search tries them: the first alternative before the second, a greedy
  repetition with more rounds first, a lazy one with fewer rounds first. The match that
  \<^verbatim>\<open>re\<close> reports is the head of that list.
\<close>

type_synonym mstate = "(nat \<times> string) list \<times> string"

definition one_char :: "(char \<Rightarrow> bool) \<Rightarrow> mstate \<Rightarrow> mstate list" where
  "one_char p st = (case snd st of [] \<Rightarrow> [] | c # t \<Rightarrow> if p c then [(fst st, t)] else [])"

definition shorter :: "mstate \<Rightarrow> mstate \<Rightarrow> bool" where
  "shorter st st' = (length (snd st') < length (snd st))"

text \<open>
  Repetition, with the number of rounds bounded by the length of the input left: a round
  that consumes nothing ends the repetition.
\<close>

fun greedy_star :: "(mstate \<Rightarrow> mstate list) \<Rightarrow> nat \<Rightarrow> mstate \<Rightarrow> mstate list" where
  "greedy_star f 0 st = [st]"
| "greedy_star f (Suc n) st = concat (map (greedy_star f n) (filter (shorter st) (f st))) @ [st]"

fun lazy_star :: "(mstate \<Rightarrow> mstate list) \<Rightarrow> nat \<Rightarrow> mstate \<Rightarrow> mstate list" where
  "lazy_star f 0 st = [st]"
| "lazy_star f (Suc n) st = st # concat (map (lazy_star f n) (filter (shorter st) (f st)))"

definition capture :: "nat \<Rightarrow> mstate \<Rightarrow> mstate \<Rightarrow> mstate" where
  "capture k st st' = ((k, take (length (snd st) - length (snd st')) (snd st)) # fst st', snd st')"

primrec ms :: "regex \<Rightarrow> mstate \<Rightarrow> mstate list" where
  "ms Digit st = one_char isdigit st"
| "ms Space st = one_char isspace st"
| "ms AnyChar st = one_char (\<lambda>c. c \<noteq> nl) st"
| "ms (Lit a) st = one_char (\<lambda>c. c = a) st"
| "ms EndOfLine st = (if snd st = [] \<or> hd (snd st) = nl then [st] else [])"
| "ms (Seq r1 r2) st = concat (map (ms r2) (ms r1 st))"
| "ms (Alt r1 r2) st = ms r1 st @ ms r2 st"
| "ms (Opt r) st = ms r st @ [st]"
| "ms (Star r) st = greedy_star (ms r) (length (snd st)) st"
| "ms (Plus r) st = concat (map (\<lambda>st'. greedy_star (ms r) (length (snd st')) st') (ms r st))"
| "ms (LazyPlus r) st = concat (map (\<lambda>st'. lazy_star (ms r) (length (snd st')) st') (ms r st))"
| "ms (Group k r) st = map (capture k st) (ms r st)"

text \<open>\<^verbatim>\<open>\d{2}:\d{2}:\d{2},\d{3}\<close>\<close>

definition timestamp :: regex where
  "timestamp =
     Seq Digit (Seq Digit (Seq (Lit CHR '':'') (Seq Digit (Seq Digit (Seq (Lit CHR '':'')
       (Seq Digit (Seq Digit (Seq (Lit CHR '','') (Seq Digit (Seq Digit Digit))))))))))"

text \<open>\<^verbatim>\<open>(?:.+\n?)\<close>, the body of the lazy repetition of group 4.\<close>

definition text_line :: regex where
  "text_line = Seq (Plus AnyChar) (Opt (Lit nl))"

text \<open>\<^verbatim>\<open>(?:\n\s*\n|$)\<close>\<close>

definition block_end :: regex where
  "block_end = Alt (Seq (Lit nl) (Seq (Star Space) (Lit nl))) EndOfLine"

definition block_pattern :: regex where
  "block_pattern =
     Seq (Group 1 (Plus Digit)) (Seq (Star Space) (Seq (Lit nl)
     (Seq (Group 2 timestamp) (Seq (Star Space)
     (Seq (Lit CHR ''-'') (Seq (Lit CHR ''-'') (Seq (Lit CHR ''>'') (Seq (Star Space)
     (Seq (Group 3 timestamp) (Seq (Star Space) (Seq (Lit nl)
     (Seq (Group 4 (LazyPlus text_line)) block_end))))))))))))"

definition match_here :: "regex \<Rightarrow> string \<Rightarrow> mstate option" where
  "match_here r s = (case ms r ([], s) of [] \<Rightarrow> None | st # _ \<Rightarrow> Some st)"

text \<open>
  \<^verbatim>\<open>finditer\<close>: the leftmost match from the present position, then the search goes on
  where that match ended. The pattern has no look-behind, so the matches in the rest of
  the content are the matches of the rest. The branch for a match of the empty string is
  never taken by \<open>block_pattern\<close>, which consumes a digit at least.
\<close>

function finditer :: "regex \<Rightarrow> string \<Rightarrow> (nat \<times> string) list list" where
  "finditer r s =
     (case match_here r s of
        Some (g, rest) \<Rightarrow>
          if length rest < length s then g # finditer r rest
          else (case s of [] \<Rightarrow> [g] | c # t \<Rightarrow> g # finditer r t)
      | None \<Rightarrow> (case s of [] \<Rightarrow> [] | c # t \<Rightarrow> finditer r t))"
  by pat_completeness auto
termination
  by (relation "measure (\<lambda>(r, s). length s)") auto

declare finditer.simps [simp del]

text \<open>\<^verbatim>\<open>match.group(k)\<close>\<close>

definition group :: "(nat \<times> string) list \<Rightarrow> nat \<Rightarrow> string" where
  "group g k = (case map_of g k of Some x \<Rightarrow> x | None \<Rightarrow> [])"

section \<open>Parsing and formatting\<close>

text \<open>
  \<^verbatim>\<open>int(s)\<close> on a string of decimal digits. The interpreter's limit on the number of
  digits of a conversion is not modelled.
\<close>

definition py_int :: "string \<Rightarrow> int" where
  "py_int s = foldl (\<lambda>acc c. 10 * acc + (int (of_char c) - 48)) 0 s"

text \<open>\<^verbatim>\<open>s.split(sep)\<close> for a separator of one character.\<close>

fun split_on :: "char \<Rightarrow> string \<Rightarrow> string list" where
  "split_on sep [] = [[]]"
| "split_on sep (c # cs) =
     (if c = sep then [] # split_on sep cs
      else (c # hd (split_on sep cs)) # tl (split_on sep cs))"

text \<open>The body of the loop over the matches (source lines 54 to 62).\<close>

definition entry_of_match :: "(nat \<times> string) list \<Rightarrow> SubtitleEntry" where
  "entry_of_match g =
     \<lparr>number = py_int (group g 1), start_time = group g 2, end_time = group g 3,
      text_lines = filter (\<lambda>line. line \<noteq> []) (split_on nl (group g 4))\<rparr>"

definition parse_srt :: "string \<Rightarrow> SubtitleEntry list" where
  "parse_srt content = map entry_of_match (finditer block_pattern content)"

text \<open>\<^verbatim>\<open>str(n)\<close> for an integer.\<close>

function str_nat :: "nat \<Rightarrow> string" where
  "str_nat n =
     (if n < 10 then [char_of (48 + n)] else str_nat (n div 10) @ [char_of (48 + n mod 10)])"
  by pat_completeness auto
termination
  by (relation "measure id") auto

declare str_nat.simps [simp del]

definition str_int :: "int \<Rightarrow> string" where
  "str_int i = (if i < 0 then CHR ''-'' # str_nat (nat (- i)) else str_nat (nat i))"

text \<open>\<^verbatim>\<open>sep.join(lines)\<close>\<close>

fun join :: "string \<Rightarrow> string list \<Rightarrow> string" where
  "join sep [] = []"
| "join sep [x] = x"
| "join sep (x # y # ys) = x @ sep @ join sep (y # ys)"

text \<open>The lines that one round of the loop of \<^verbatim>\<open>format_srt\<close> adds.\<close>

definition block_lines :: "SubtitleEntry \<Rightarrow> string list" where
  "block_lines entry =
     [str_int (number entry), start_time entry @ '' --> '' @ end_time entry]
       @ text_lines entry @ [[]]"

definition format_srt :: "SubtitleEntry list \<Rightarrow> string" where
  "format_srt entries = join [nl] (concat (map block_lines entries))"

section \<open>The driver\<close>

text \<open>
  \<^verbatim>\<open>main\<close> reads \<^verbatim>\<open>sys.argv\<close>, reads one file and writes one. The environment is the
  pair of \<open>read_file\<close>, which gives for a path the decoded content of the file or the
  message of the exception that opening or reading it raises, and \<open>write_file\<close>, which
  gives for a path and a content the message of the exception that opening or writing
  raises, if any. A run is what the process prints on standard output, its exit status
  and the file accesses it attempted, in order. An exception inside \<^verbatim>\<open>try\<close> ends in the
  handler, which prints the message and calls \<^verbatim>\<open>sys.exit(1)\<close>; a run that leaves
  \<^verbatim>\<open>main\<close> at its end exits with status 0.
\<close>

datatype access = Read_file string | Write_file string string

record run =
  stdout :: "string list"
  exit_status :: int
  accesses :: "access list"

definition main ::
  "(string \<Rightarrow> string + string) \<Rightarrow> (string \<Rightarrow> string \<Rightarrow> string option) \<Rightarrow> string list \<Rightarrow> run" where
  "main read_file write_file argv =
     (if length argv \<noteq> 3
      then \<lparr>stdout = [''Usage: python subtitle_cleaner_v2.py input.srt output.srt''],
            exit_status = 1, accesses = []\<rparr>
      else
        let input_file = argv ! 1; output_file = argv ! 2
        in case read_file input_file of
             Inl msg \<Rightarrow>
               \<lparr>stdout = [''Error processing file: '' @ msg], exit_status = 1,
                accesses = [Read_file input_file]\<rparr>
           | Inr content \<Rightarrow>
               let entries = parse_srt content;
                   original_count = length entries;
                   cleaned_entries = perform_deep_cleaning entries;
                   cleaned_content = format_srt cleaned_entries
               in case write_file output_file cleaned_content of
                    Some msg \<Rightarrow>
                      \<lparr>stdout = [''Error processing file: '' @ msg], exit_status = 1,
                       accesses = [Read_file input_file, Write_file output_file cleaned_content]\<rparr>
                  | None \<Rightarrow>
                      \<lparr>stdout =
                         [''Successfully cleaned subtitles from '' @ input_file @ '' to '' @ output_file,
                          ''Original entries: '' @ str_int (int original_count)
                            @ '', Cleaned entries: '' @ str_int (int (length cleaned_entries))],
                       exit_status = 0,
                       accesses = [Read_file input_file, Write_file output_file cleaned_content]\<rparr>)"

section \<open>Auxiliary notions for the proofs\<close>

text \<open>
  The state in which one iteration of the pass leaves \<open>current\<close>, and whether it appends
  it; \<open>rd_rest\<close> and \<open>rd_muts\<close> follow the loop along the list, with the previous entry
  in its present state.
\<close>

definition entry_after :: "SubtitleEntry \<Rightarrow> SubtitleEntry \<Rightarrow> SubtitleEntry" where
  "entry_after prev current =
     (if is_empty prev \<or> is_empty current then current
      else if hd (get_cleaned_lines current) = last (get_cleaned_lines prev)
           then drop_first_line current else current)"

definition appended :: "SubtitleEntry \<Rightarrow> SubtitleEntry \<Rightarrow> bool" where
  "appended prev current =
     (is_empty prev \<or> is_empty current
      \<or> hd (get_cleaned_lines current) \<noteq> last (get_cleaned_lines prev)
      \<or> \<not> is_empty (drop_first_line current))"

fun rd_rest :: "SubtitleEntry \<Rightarrow> SubtitleEntry list \<Rightarrow> SubtitleEntry list" where
  "rd_rest prev [] = []"
| "rd_rest prev (c # cs) =
     (if appended prev c then [entry_after prev c] else []) @ rd_rest (entry_after prev c) cs"

fun rd_muts :: "SubtitleEntry \<Rightarrow> SubtitleEntry list \<Rightarrow> SubtitleEntry list" where
  "rd_muts prev [] = []"
| "rd_muts prev (c # cs) = entry_after prev c # rd_muts (entry_after prev c) cs"

text \<open>
  An output entry comes from an input entry: the same times, and text lines that are a
  suffix of the input entry's.
\<close>

definition trimmed_of :: "SubtitleEntry \<Rightarrow> SubtitleEntry \<Rightarrow> bool" where
  "trimmed_of out inp =
     (start_time out = start_time inp \<and> end_time out = end_time inp
      \<and> suffix (text_lines out) (text_lines inp))"

text \<open>
  The entries that the round trip is stated for: both times have the shape of a timestamp,
  there is a text line, and every text line has a character that is not whitespace and no
  newline; and no entry starts with the line that ends its predecessor.
\<close>

definition is_timestamp :: "string \<Rightarrow> bool" where
  "is_timestamp t =
     list_all2 (\<lambda>p c. p c)
       [isdigit, isdigit, (\<lambda>c. c = CHR '':''), isdigit, isdigit, (\<lambda>c. c = CHR '':''),
        isdigit, isdigit, (\<lambda>c. c = CHR '',''), isdigit, isdigit, isdigit] t"

definition entry_well_formed :: "SubtitleEntry \<Rightarrow> bool" where
  "entry_well_formed e =
     (is_timestamp (start_time e) \<and> is_timestamp (end_time e) \<and> text_lines e \<noteq> []
      \<and> list_all (\<lambda>line. strip line \<noteq> [] \<and> nl \<notin> set line) (text_lines e))"

fun no_adjacent_duplicate :: "SubtitleEntry list \<Rightarrow> bool" where
  "no_adjacent_duplicate [] = True"
| "no_adjacent_duplicate [e] = True"
| "no_adjacent_duplicate (a # b # es) =
     (hd (text_lines b) \<noteq> last (text_lines a) \<and> no_adjacent_duplicate (b # es))"

text \<open>
  The formatted text of one entry, the groups that a match of it captures, and the notions
  that the lemmas on the matcher are stated with: the first state of a list of states, the
  text of some lines with a newline after each, a line that \<^verbatim>\<open>.+\<close> consumes whole, and
  what follows a block in a formatted text.
\<close>

definition first_result :: "'a list \<Rightarrow> 'a option" where
  "first_result xs = (case xs of [] \<Rightarrow> None | x # _ \<Rightarrow> Some x)"

definition lines_text :: "string list \<Rightarrow> string" where
  "lines_text ls = concat (map (\<lambda>l. l @ [nl]) ls)"

definition line_ok :: "string \<Rightarrow> bool" where
  "line_ok l = (l \<noteq> [] \<and> nl \<notin> set l)"

definition tail_ok :: "string \<Rightarrow> bool" where
  "tail_ok tail = (tail = [] \<or> (\<exists>c s. tail = nl # c # s \<and> \<not> isspace c))"

definition block_text :: "SubtitleEntry \<Rightarrow> string" where
  "block_text e =
     str_int (number e) @ nl # start_time e @ '' --> '' @ end_time e @ nl # lines_text (text_lines e)"

definition captures_of :: "SubtitleEntry \<Rightarrow> (nat \<times> string) list" where
  "captures_of e =
     [(4, lines_text (text_lines e)), (3, end_time e), (2, start_time e),
      (1, str_nat (nat \<bar>number e\<bar>))]"

text \<open>
  The message of the exception raised inside \<^verbatim>\<open>try\<close>, if there is one, and the lines
  printed by a run without one.
\<close>

definition processing_error ::
  "(string \<Rightarrow> string + string) \<Rightarrow> (string \<Rightarrow> string \<Rightarrow> string option) \<Rightarrow> string list \<Rightarrow> string option" where
  "processing_error read_file write_file argv =
     (case read_file (argv ! 1) of
        Inl msg \<Rightarrow> Some msg
      | Inr content \<Rightarrow>
          write_file (argv ! 2) (format_srt (perform_deep_cleaning (parse_srt content))))"

definition success_lines ::
  "(string \<Rightarrow> string + string) \<Rightarrow> string list \<Rightarrow> string list" where
  "success_lines read_file argv =
     (case read_file (argv ! 1) of
        Inl msg \<Rightarrow> []
      | Inr content \<Rightarrow>
          [''Successfully cleaned subtitles from '' @ argv ! 1 @ '' to '' @ argv ! 2,
           ''Original entries: '' @ str_int (int (length (parse_srt content)))
             @ '', Cleaned entries: ''
             @ str_int (int (length (perform_deep_cleaning (parse_srt content))))])"

section \<open>The pass along the list\<close>

lemma is_empty_cleaned: "is_empty e \<longleftrightarrow> get_cleaned_lines e = []"
  by (auto simp: is_empty_def get_cleaned_lines_def list_ex_iff filter_empty_conv)

lemma rd_step_at:
  assumes "i = Suc (length pre)"
  shows "rd_step i (pre @ prev # c # rest, res) =
           (pre @ prev # entry_after prev c # rest,
            res @ (if appended prev c then [entry_after prev c] else []))"
proof -
  have p: "(pre @ prev # c # rest) ! (i - 1) = prev" using assms by simp
  have c: "(pre @ prev # c # rest) ! i = c"
    using assms by (simp add: nth_append)
  have u: "(pre @ prev # c # rest)[i := x] = pre @ prev # x # rest" for x
    using assms by (simp add: list_update_append)
  show ?thesis
    unfolding rd_step_def Let_def fst_conv snd_conv p c u
    by (auto simp: entry_after_def appended_def is_empty_cleaned)
qed

lemma length_rd_muts [simp]: "length (rd_muts prev cs) = length cs"
  by (induction cs arbitrary: prev) auto

lemma fold_rd_step:
  "fold rd_step [Suc (length pre)..<Suc (length pre) + length cs] (pre @ prev # cs @ rest, res) =
     (pre @ prev # rd_muts prev cs @ rest, res @ rd_rest prev cs)"
proof (induction cs arbitrary: pre prev res)
  case Nil
  then show ?case by simp
next
  case (Cons c cs)
  have r: "[Suc (length pre)..<Suc (length pre) + length (c # cs)] =
           Suc (length pre) # [Suc (length (pre @ [prev]))..<Suc (length (pre @ [prev])) + length cs]"
    by (subst upt_rec) simp
  have s: "rd_step (Suc (length pre)) (pre @ prev # (c # cs) @ rest, res) =
             ((pre @ [prev]) @ entry_after prev c # cs @ rest,
              res @ (if appended prev c then [entry_after prev c] else []))"
    using rd_step_at [of "Suc (length pre)" pre prev c "cs @ rest" res] by simp
  show ?case
    unfolding r fold_simps s Cons.IH by simp
qed

lemma rd_state_at_eq:
  assumes "1 \<le> i" "i \<le> length (e # es)"
  shows "rd_state_at (e # es) i =
           (e # rd_muts e (take (i - 1) es) @ drop (i - 1) es, e # rd_rest e (take (i - 1) es))"
proof -
  have l: "length (take (i - 1) es) = i - 1" using assms by simp
  have "fold rd_step [Suc (length ([]::SubtitleEntry list))..<Suc (length ([]::SubtitleEntry list)) + length (take (i - 1) es)]
          ([] @ e # take (i - 1) es @ drop (i - 1) es, [e]) =
        ([] @ e # rd_muts e (take (i - 1) es) @ drop (i - 1) es, [e] @ rd_rest e (take (i - 1) es))"
    by (rule fold_rd_step)
  then show ?thesis
    using assms unfolding rd_state_at_def l by simp
qed

lemma remove_duplicates_Cons: "remove_duplicates (e # es) = e # rd_rest e es"
  using rd_state_at_eq [of "length (e # es)" e es]
  by (simp add: remove_duplicates_def)

lemma remove_duplicates_Nil: "remove_duplicates [] = []"
  by (simp add: remove_duplicates_def)

lemma drop_first_line_tl: "drop_first_line c = c\<lparr>text_lines := tl (text_lines c)\<rparr>"
  by (cases "text_lines c") (auto simp: drop_first_line_def drop_Suc)

lemma trimmed_of_refl: "trimmed_of e e"
  by (simp add: trimmed_of_def)

lemma trimmed_of_trans: "trimmed_of a b \<Longrightarrow> trimmed_of b c \<Longrightarrow> trimmed_of a c"
  by (auto simp: trimmed_of_def intro: suffix_order.trans)

lemma trimmed_of_drop_first_line: "trimmed_of (drop_first_line c) c"
  by (simp add: trimmed_of_def drop_first_line_tl suffix_tl)

lemma trimmed_of_entry_after: "trimmed_of (entry_after prev c) c"
  by (simp add: entry_after_def trimmed_of_refl trimmed_of_drop_first_line)

lemma rd_rest_emb: "list_emb trimmed_of (rd_rest prev cs) cs"
  by (induction cs arbitrary: prev) (auto simp: trimmed_of_entry_after)

lemma remove_duplicates_emb: "list_emb trimmed_of (remove_duplicates es) es"
  by (cases es) (auto simp: remove_duplicates_Nil remove_duplicates_Cons trimmed_of_refl rd_rest_emb)

lemma emb_trans:
  "list_emb trimmed_of xs ys \<Longrightarrow> list_emb trimmed_of ys zs \<Longrightarrow> list_emb trimmed_of xs zs"
  by (rule list_emb_trans [where P = trimmed_of]) (auto intro: trimmed_of_trans)

lemma clean_loop_emb: "list_emb trimmed_of (clean_loop n es) es"
proof (induction n arbitrary: es)
  case 0
  show ?case by (simp add: list_emb_refl trimmed_of_refl)
next
  case (Suc n)
  show ?case
    using remove_duplicates_emb [of es] Suc.IH [of "remove_duplicates es"]
    by (auto simp: Let_def intro: emb_trans)
qed

lemma filter_emb: "list_emb trimmed_of ys es \<Longrightarrow> list_emb trimmed_of (filter Q ys) es"
  by (induction rule: list_emb.induct) auto

lemma renumber_emb: "list_emb trimmed_of ys es \<Longrightarrow> list_emb trimmed_of (renumber i ys) es"
  by (induction arbitrary: i rule: list_emb.induct) (auto simp: trimmed_of_def)

lemma number_renumber: "map number (renumber i xs) = map (\<lambda>k. i + int k) [0..<length xs]"
proof (induction xs arbitrary: i)
  case Nil
  show ?case by simp
next
  case (Cons x xs)
  have "map (\<lambda>k. i + int k) [0..<length (x # xs)] = i # map (\<lambda>k. i + int k) (map Suc [0..<length xs])"
    by (simp add: upt_conv_Cons map_Suc_upt del: upt_Suc)
  then show ?case using Cons.IH [of "i + 1"] by (simp add: comp_def add.assoc)
qed

lemma length_renumber [simp]: "length (renumber i xs) = length xs"
  by (induction xs arbitrary: i) auto


lemma rd_state_at_length:
  assumes "1 \<le> i" "i \<le> length entries"
  shows "length (fst (rd_state_at entries i)) = length entries"
proof (cases entries)
  case Nil
  then show ?thesis using assms by simp
next
  case (Cons e es)
  then show ?thesis using assms rd_state_at_eq [of i e es] by simp
qed

lemma rd_state_at_current:
  assumes "1 \<le> i" "i < length entries"
  shows "fst (rd_state_at entries i) ! i = entries ! i"
proof (cases entries)
  case Nil
  then show ?thesis using assms by simp
next
  case (Cons e es)
  obtain j where j: "i = Suc j" using assms(1) by (cases i) auto
  have "fst (rd_state_at (e # es) i) = e # rd_muts e (take j es) @ drop j es"
    using assms Cons j rd_state_at_eq [of i e es] by simp
  moreover have "(rd_muts e (take j es) @ drop j es) ! j = es ! j"
    using assms Cons j by (simp add: nth_append)
  ultimately show ?thesis using Cons j by simp
qed




lemma rd_state_at_Suc: "1 \<le> i \<Longrightarrow> rd_state_at entries (Suc i) = rd_step i (rd_state_at entries i)"
  by (simp add: rd_state_at_def)

lemma rd_calls_bounds: "rd_calls n es \<le> n \<and> (0 < n \<longrightarrow> 1 \<le> rd_calls n es)"
proof (induction n arbitrary: es)
  case 0
  show ?case by simp
next
  case (Suc n)
  show ?case using Suc.IH [of "remove_duplicates es"] by simp
qed

lemma clean_loop_funpow: "clean_loop n es = (remove_duplicates ^^ rd_calls n es) es"
proof (induction n arbitrary: es)
  case 0
  show ?case by simp
next
  case (Suc n)
  show ?case using Suc.IH [of "remove_duplicates es"]
    by (simp add: Let_def funpow_swap1)
qed

lemma rd_calls_changes:
  "1 \<le> j \<Longrightarrow> j < rd_calls n es \<Longrightarrow>
     length ((remove_duplicates ^^ j) es) \<noteq> length ((remove_duplicates ^^ (j - 1)) es)"
proof (induction n arbitrary: es j)
  case 0
  then show ?case by simp
next
  case (Suc n)
  show ?case
  proof (cases "length (remove_duplicates es) = length es")
    case True
    then show ?thesis using Suc.prems by simp
  next
    case False
    show ?thesis
    proof (cases "j = 1")
      case True
      then show ?thesis using False by simp
    next
      case nj: False
      obtain k where k: "j = Suc k" "1 \<le> k" using nj Suc.prems(1) by (cases j) auto
      have "k < rd_calls n (remove_duplicates es)" using Suc.prems(2) False k by simp
      from Suc.IH [OF k(2) this] show ?thesis
        using k by (cases k) (simp_all add: funpow_swap1)
    qed
  qed
qed

lemma rd_calls_stable:
  "rd_calls n es < n \<Longrightarrow>
     length ((remove_duplicates ^^ rd_calls n es) es) =
     length ((remove_duplicates ^^ (rd_calls n es - 1)) es)"
proof (induction n arbitrary: es)
  case 0
  then show ?case by simp
next
  case (Suc n)
  show ?case
  proof (cases "length (remove_duplicates es) = length es")
    case True
    then show ?thesis by simp
  next
    case False
    have lt: "rd_calls n (remove_duplicates es) < n" using Suc.prems False by simp
    have pos: "1 \<le> rd_calls n (remove_duplicates es)"
      using lt rd_calls_bounds [of n "remove_duplicates es"] by (cases n) auto
    then obtain k where k: "rd_calls n (remove_duplicates es) = Suc k"
      by (cases "rd_calls n (remove_duplicates es)") auto
    show ?thesis using Suc.IH [OF lt] False k by (simp add: funpow_swap1)
  qed
qed

lemma strip_empty_iff: "strip line = [] \<longleftrightarrow> (\<forall>c \<in> set line. isspace c)"
proof -
  have "strip line = [] \<longleftrightarrow> (\<forall>c \<in> set (dropWhile isspace line). isspace c)"
    by (simp add: strip_def dropWhile_eq_Nil_conv)
  also have "\<dots> \<longleftrightarrow> (\<forall>c \<in> set line. isspace c)"
  proof
    assume a: "\<forall>c \<in> set (dropWhile isspace line). isspace c"
    have "dropWhile isspace line = []"
    proof (rule ccontr)
      assume n: "dropWhile isspace line \<noteq> []"
      then have "\<not> isspace (hd (dropWhile isspace line))" by (rule hd_dropWhile)
      moreover have "hd (dropWhile isspace line) \<in> set (dropWhile isspace line)"
        using n by simp
      ultimately show False using a by blast
    qed
    then show "\<forall>c \<in> set line. isspace c" by (simp add: dropWhile_eq_Nil_conv)
  next
    assume "\<forall>c \<in> set line. isspace c"
    then show "\<forall>c \<in> set (dropWhile isspace line). isspace c"
      by (auto dest: set_dropWhileD)
  qed
  finally show ?thesis .
qed

lemma is_empty_iff:
  "is_empty e \<longleftrightarrow> (\<forall>line \<in> set (text_lines e). \<forall>c \<in> set line. isspace c)"
  by (simp add: is_empty_def list_ex_iff strip_empty_iff)

lemma is_empty_renumber: "e \<in> set (renumber i xs) \<Longrightarrow> \<exists>x \<in> set xs. text_lines e = text_lines x"
  by (induction xs arbitrary: i) auto

section \<open>The matcher on a formatted block\<close>

text \<open>
  The bound on the rounds of a repetition is never what ends it: any bound that is at
  least the length of the input left gives the same list of states.
\<close>

lemma greedy_star_fuel:
  "length (snd st) \<le> n \<Longrightarrow> length (snd st) \<le> m \<Longrightarrow> greedy_star f n st = greedy_star f m st"
proof (induction n arbitrary: m st)
  case 0
  then show ?case by (cases m) (simp_all add: shorter_def)
next
  case (Suc n)
  show ?case
  proof (cases m)
    case 0
    then show ?thesis using Suc.prems by (simp add: shorter_def)
  next
    case (Suc k)
    have "greedy_star f n x = greedy_star f k x" if "x \<in> set (filter (shorter st) (f st))" for x
      using that Suc.prems \<open>m = Suc k\<close> by (intro Suc.IH) (auto simp: shorter_def)
    then have eq: "map (greedy_star f n) (filter (shorter st) (f st)) =
        map (greedy_star f k) (filter (shorter st) (f st))"
      by (intro map_cong refl)
    show ?thesis
      unfolding \<open>m = Suc k\<close> greedy_star.simps eq ..
  qed
qed

lemma lazy_star_fuel:
  "length (snd st) \<le> n \<Longrightarrow> length (snd st) \<le> m \<Longrightarrow> lazy_star f n st = lazy_star f m st"
proof (induction n arbitrary: m st)
  case 0
  then show ?case by (cases m) (simp_all add: shorter_def)
next
  case (Suc n)
  show ?case
  proof (cases m)
    case 0
    then show ?thesis using Suc.prems by (simp add: shorter_def)
  next
    case (Suc k)
    have "lazy_star f n x = lazy_star f k x" if "x \<in> set (filter (shorter st) (f st))" for x
      using that Suc.prems \<open>m = Suc k\<close> by (intro Suc.IH) (auto simp: shorter_def)
    then have eq: "map (lazy_star f n) (filter (shorter st) (f st)) =
        map (lazy_star f k) (filter (shorter st) (f st))"
      by (intro map_cong refl)
    show ?thesis
      unfolding \<open>m = Suc k\<close> lazy_star.simps eq ..
  qed
qed

lemma one_char_Nil [simp]: "one_char p (g, []) = []"
  by (simp add: one_char_def)

lemma one_char_Cons [simp]: "one_char p (g, c # t) = (if p c then [(g, t)] else [])"
  by (simp add: one_char_def)

lemma lazy_star_head: "\<exists>junk. lazy_star f n st = st # junk"
  by (cases n) auto

text \<open>A greedy run over one class of characters: every split of the run, the longest first.\<close>

lemma greedy_run:
  assumes "\<forall>c \<in> set w. p c" and "rest = [] \<or> \<not> p (hd rest)" and "length w \<le> n"
  shows "greedy_star (one_char p) n (g, w @ rest) =
           map (\<lambda>k. (g, drop k w @ rest)) (rev [0..<Suc (length w)])"
  using assms
proof (induction w arbitrary: n)
  case Nil
  then show ?case by (cases n; cases rest) auto
next
  case (Cons c w)
  then obtain m where m: "n = Suc m" by (cases n) auto
  have ih: "greedy_star (one_char p) m (g, w @ rest) =
           map (\<lambda>k. (g, drop k w @ rest)) (rev [0..<Suc (length w)])"
    using Cons m by simp
  have u: "[0..<Suc (length (c # w))] = 0 # map Suc [0..<Suc (length w)]"
    by (simp add: upt_conv_Cons map_Suc_upt del: upt_Suc)
  have rhs: "map (\<lambda>k. (g, drop k (c # w) @ rest)) (rev [0..<Suc (length (c # w))]) =
      map (\<lambda>k. (g, drop k w @ rest)) (rev [0..<Suc (length w)]) @ [(g, c # w @ rest)]"
    unfolding u by (simp add: rev_map comp_def del: upt_Suc)
  have lhs: "greedy_star (one_char p) n (g, (c # w) @ rest) =
      greedy_star (one_char p) m (g, w @ rest) @ [(g, c # w @ rest)]"
    unfolding m using Cons.prems(1) by (simp add: shorter_def)
  show ?case
    unfolding lhs rhs ih ..
qed

lemma ms_Space: "ms Space = one_char isspace"
  by (rule ext) simp

lemma ms_Digit: "ms Digit = one_char isdigit"
  by (rule ext) simp

lemma ms_AnyChar: "ms AnyChar = one_char (\<lambda>c. c \<noteq> nl)"
  by (rule ext) simp

lemma isspace_nl [simp]: "isspace nl"
  by (simp add: isspace_def)

lemma isdigit_not_space: "isdigit c \<Longrightarrow> \<not> isspace c"
  by (auto simp: isdigit_def isspace_def Let_def)

lemma isdigit_not_nl: "isdigit c \<Longrightarrow> c \<noteq> nl"
  by (auto simp: isdigit_def)

lemma concat_map_empty: "(\<And>x. x \<in> set xs \<Longrightarrow> h x = []) \<Longrightarrow> concat (map h xs) = []"
  by (induction xs) auto

lemma lit_fail: "s = [] \<or> hd s \<noteq> a \<Longrightarrow> ms (Seq (Lit a) R) (g, s) = []"
  by (cases s) auto

lemma lit_step: "ms (Seq (Lit a) R) (g, a # s) = ms R (g, s)"
  by simp

lemma rev_upt_Suc: "rev [0..<Suc n] = map Suc (rev [0..<n]) @ [0]"
proof -
  have "[0..<Suc n] = 0 # map Suc [0..<n]"
    by (simp add: upt_conv_Cons map_Suc_upt del: upt_Suc)
  then show ?thesis by (simp add: rev_map del: upt_Suc)
qed

lemma greedy_then:
  assumes w: "\<forall>c \<in> set w. p c" and rest: "rest = [] \<or> \<not> p (hd rest)"
    and fail: "\<And>k. k < length w \<Longrightarrow> h (g, drop (Suc k) w @ rest) = []"
  shows "concat (map h (greedy_star (one_char p) (length (w @ rest)) (g, w @ rest))) =
           h (g, w @ rest)"
proof -
  have run: "greedy_star (one_char p) (length (w @ rest)) (g, w @ rest) =
      map (\<lambda>k. (g, drop k w @ rest)) (rev [0..<Suc (length w)])"
    by (rule greedy_run [OF w rest]) simp
  have "concat (map h (map (\<lambda>k. (g, drop k w @ rest)) (map Suc (rev [0..<length w])))) = []"
  proof (rule concat_map_empty)
    fix x
    assume "x \<in> set (map (\<lambda>k. (g, drop k w @ rest)) (map Suc (rev [0..<length w])))"
    then obtain k where "k < length w" and "x = (g, drop (Suc k) w @ rest)"
      by auto
    then show "h x = []"
      using fail by blast
  qed
  then show ?thesis
    unfolding run rev_upt_Suc by simp
qed

lemma star_space_nl:
  assumes "nl \<notin> set (takeWhile isspace s)"
  shows "ms (Seq (Star Space) (Seq (Lit nl) R)) (g, nl # s) = ms R (g, s)"
proof -
  define tw where "tw = takeWhile isspace s"
  define rest where "rest = dropWhile isspace s"
  define w where "w = nl # tw"
  have s: "nl # s = w @ rest" by (simp add: w_def tw_def rest_def)
  have rest: "rest = [] \<or> \<not> isspace (hd rest)"
    unfolding rest_def using hd_dropWhile [of isspace s] by blast
  have w: "\<forall>c \<in> set w. isspace c"
    unfolding w_def tw_def by (auto dest: set_takeWhileD)
  have fail: "ms (Seq (Lit nl) R) (g, drop (Suc k) w @ rest) = []" if "k < length w" for k
  proof (rule lit_fail)
    show "drop (Suc k) w @ rest = [] \<or> hd (drop (Suc k) w @ rest) \<noteq> nl"
    proof (cases "k < length tw")
      case True
      then have "hd (drop (Suc k) w @ rest) = tw ! k"
        by (simp add: w_def hd_append hd_drop_conv_nth)
      moreover have "tw ! k \<in> set tw" using True by simp
      ultimately show ?thesis using assms unfolding tw_def by metis
    next
      case False
      then have "drop (Suc k) w @ rest = rest" using that by (simp add: w_def)
      then show ?thesis using rest isspace_nl by metis
    qed
  qed
  have "ms (Seq (Star Space) (Seq (Lit nl) R)) (g, w @ rest) =
      ms (Seq (Lit nl) R) (g, w @ rest)"
    unfolding ms.simps(6) [of "Star Space"] ms.simps(9) ms_Space snd_conv
    by (rule greedy_then [where h = "ms (Seq (Lit nl) R)" and g = g, OF w rest fail])
  then show ?thesis
    unfolding s [symmetric] by (simp only: lit_step)
qed

lemma capture_append: "capture k (g, t @ rest) (g', rest) = ((k, t) # g', rest)"
  by (simp add: capture_def)

lemma is_timestampD:
  assumes "is_timestamp t"
  obtains a b c d e f h i j where
    "t = [a, b, CHR '':'', c, d, CHR '':'', e, f, CHR '','', h, i, j]"
    "isdigit a" "isdigit b" "isdigit c" "isdigit d" "isdigit e" "isdigit f"
    "isdigit h" "isdigit i" "isdigit j"
  using assms unfolding is_timestamp_def
  by (auto simp: list_all2_Cons1)

lemma timestamp_match:
  assumes "is_timestamp t"
  shows "ms timestamp (g, t @ rest) = [(g, rest)]"
  using assms by (elim is_timestampD) (simp add: timestamp_def)

lemma timestamp_hd:
  assumes "is_timestamp t"
  shows "t \<noteq> [] \<and> isdigit (hd t)"
  using assms by (elim is_timestampD) simp

lemma timestamp_fail: "\<not> isdigit c \<Longrightarrow> ms timestamp (g, c # s) = []"
  by (simp add: timestamp_def)

lemma group_timestamp:
  assumes "is_timestamp t"
  shows "ms (Group k timestamp) (g, t @ rest) = [((k, t) # g, rest)]"
  by (simp add: timestamp_match [OF assms] capture_append)

lemma first_result_Cons [simp]: "first_result (x # xs) = Some x"
  by (simp add: first_result_def)

lemma first_result_Nil [simp]: "first_result [] = None"
  by (simp add: first_result_def)

lemma first_result_append: "first_result xs = Some x \<Longrightarrow> first_result (xs @ ys) = Some x"
  by (cases xs) auto

lemma first_map: "first_result xs = Some x \<Longrightarrow> first_result (map f xs) = Some (f x)"
  by (cases xs) auto

lemma first_concat:
  "first_result xs = Some x \<Longrightarrow> first_result (h x) = Some y \<Longrightarrow>
     first_result (concat (map h xs)) = Some y"
  by (cases xs) (auto simp: first_result_append)

lemma first_seq:
  "first_result (ms a st) = Some x \<Longrightarrow> first_result (ms b x) = Some y \<Longrightarrow>
     first_result (ms (Seq a b) st) = Some y"
  by (simp add: first_concat)

lemma match_here_first: "match_here r s = first_result (ms r ([], s))"
  by (simp add: match_here_def first_result_def)

lemma greedy_first:
  assumes "\<forall>c \<in> set w. p c" and "rest = [] \<or> \<not> p (hd rest)" and "length w \<le> n"
  shows "first_result (greedy_star (one_char p) n (g, w @ rest)) = Some (g, rest)"
proof -
  have "rev [0..<Suc (length w)] = length w # rev [0..<length w]" by simp
  then show ?thesis
    unfolding greedy_run [OF assms] by simp
qed

lemma plus_first:
  assumes "w \<noteq> []" and "\<forall>c \<in> set w. p c" and "rest = [] \<or> \<not> p (hd rest)"
  shows "first_result
           (concat (map (\<lambda>st'. greedy_star (one_char p) (length (snd st')) st')
                      (one_char p (g, w @ rest)))) = Some (g, rest)"
proof -
  obtain c w' where w: "w = c # w'" using assms(1) by (cases w) auto
  have "first_result (greedy_star (one_char p) (length (w' @ rest)) (g, w' @ rest)) = Some (g, rest)"
    by (rule greedy_first) (use assms w in auto)
  then show ?thesis using assms(2) w by simp
qed

lemma number_first:
  assumes "ds \<noteq> []" and "\<forall>c \<in> set ds. isdigit c" and "rest = [] \<or> \<not> isdigit (hd rest)"
  shows "first_result (ms (Group k (Plus Digit)) (g, ds @ rest)) = Some ((k, ds) # g, rest)"
proof -
  have "first_result (ms (Plus Digit) (g, ds @ rest)) = Some (g, rest)"
    unfolding ms.simps ms_Digit by (rule plus_first [OF assms])
  then have "first_result (map (capture k (g, ds @ rest)) (ms (Plus Digit) (g, ds @ rest))) =
      Some (capture k (g, ds @ rest) (g, rest))"
    by (rule first_map)
  then show ?thesis
    by (simp add: capture_append del: ms.simps(10))
qed

lemma arrow_step:
  "ms (Seq (Star Space) (Seq (Lit CHR ''-'') (Seq (Lit CHR ''-'') (Seq (Lit CHR ''>'') R))))
      (g, '' -->'' @ s) = ms R (g, s)"
  by (simp add: shorter_def isspace_def)

lemma space_timestamp_step:
  assumes "is_timestamp t"
  shows "ms (Seq (Star Space) (Seq (Group k timestamp) R)) (g, CHR '' '' # t @ rest) =
           ms R ((k, t) # g, rest)"
proof -
  have h: "t \<noteq> []" "\<not> isspace (hd t)" "isdigit (hd t)"
    using timestamp_hd [OF assms] isdigit_not_space by auto
  have run: "ms (Star Space) (g, [CHR '' ''] @ (t @ rest)) =
      map (\<lambda>k. (g, drop k [CHR '' ''] @ (t @ rest))) (rev [0..<Suc (length [CHR '' ''])])"
    unfolding ms.simps ms_Space snd_conv
    by (rule greedy_run) (use h in \<open>auto simp: isspace_def\<close>)
  have fail: "ms (Group k timestamp) (g, CHR '' '' # t @ rest) = []"
    by (simp add: timestamp_fail isdigit_def)
  have "ms (Seq (Star Space) (Seq (Group k timestamp) R)) (g, [CHR '' ''] @ (t @ rest)) =
      ms R ((k, t) # g, rest)"
    unfolding ms.simps(6) [of "Star Space"] run
    by (simp add: group_timestamp [OF assms] fail del: ms.simps(12))
  then show ?thesis by simp
qed

lemma timestamp_step:
  assumes "is_timestamp t"
  shows "ms (Seq (Group k timestamp) R) (g, t @ rest) = ms R ((k, t) # g, rest)"
  by (simp add: group_timestamp [OF assms] del: ms.simps(12))

lemma text_line_first:
  assumes "line_ok l"
  shows "first_result (ms text_line (g, l @ nl # rest)) = Some (g, rest)"
proof -
  have "first_result (ms (Plus AnyChar) (g, l @ (nl # rest))) = Some (g, nl # rest)"
    unfolding ms.simps ms_AnyChar
    by (rule plus_first) (use assms in \<open>auto simp: line_ok_def\<close>)
  moreover have "first_result (ms (Opt (Lit nl)) (g, nl # rest)) = Some (g, rest)"
    by simp
  ultimately show ?thesis
    unfolding text_line_def by (rule first_seq)
qed

lemma first_result_skip: "h x = [] \<Longrightarrow>
    first_result (concat (map h (x # xs))) = first_result (concat (map h xs))"
  by simp

lemma lazy_lines:
  assumes "\<forall>l \<in> set ls. line_ok l"
    and "length (lines_text ls @ tail) \<le> n"
    and "\<And>k. k < length ls \<Longrightarrow> h (g, lines_text (drop k ls) @ tail) = []"
    and "first_result (h (g, tail)) = Some y"
  shows "first_result (concat (map h (lazy_star (ms text_line) n (g, lines_text ls @ tail)))) = Some y"
  using assms
proof (induction ls arbitrary: n)
  case Nil
  obtain junk where "lazy_star (ms text_line) n (g, tail) = (g, tail) # junk"
    using lazy_star_head by blast
  then show ?case using Nil.prems(4) by (simp add: lines_text_def first_result_append)
next
  case (Cons l ls)
  let ?x0 = "(g, lines_text (l # ls) @ tail)" and ?x1 = "(g, lines_text ls @ tail)"
  have x0: "lines_text (l # ls) @ tail = l @ nl # lines_text ls @ tail"
    by (simp add: lines_text_def)
  obtain m where m: "n = Suc m" using Cons.prems(2) by (cases n) (auto simp: x0)
  have "first_result (ms text_line ?x0) = Some ?x1"
    unfolding x0 by (rule text_line_first) (use Cons.prems(1) in simp)
  then obtain junk where f: "ms text_line ?x0 = ?x1 # junk"
    by (cases "ms text_line ?x0") auto
  have sh: "shorter ?x0 ?x1" by (simp add: shorter_def x0)
  have h0: "h ?x0 = []" using Cons.prems(3) [of 0] by simp
  have ih: "first_result (concat (map h (lazy_star (ms text_line) m ?x1))) = Some y"
  proof (rule Cons.IH)
    show "\<forall>l \<in> set ls. line_ok l" using Cons.prems(1) by simp
    show "length (lines_text ls @ tail) \<le> m" using Cons.prems(2) m by (simp add: x0)
    show "h (g, lines_text (drop k ls) @ tail) = []" if "k < length ls" for k
      using Cons.prems(3) [of "Suc k"] that by simp
    show "first_result (h (g, tail)) = Some y" by (rule Cons.prems(4))
  qed
  have "lazy_star (ms text_line) n ?x0 =
      ?x0 # lazy_star (ms text_line) m ?x1 @
        concat (map (lazy_star (ms text_line) m) (filter (shorter ?x0) junk))"
    unfolding m lazy_star.simps f using sh by simp
  then show ?case
    using h0 ih by (simp add: first_result_append)
qed

lemma block_end_fail: "c \<noteq> nl \<Longrightarrow> ms block_end (g, c # s) = []"
  by (simp add: block_end_def)

lemma block_end_tail:
  assumes "tail_ok tail"
  shows "ms block_end (g, tail) = [(g, tail)]"
proof (cases tail)
  case Nil
  then show ?thesis by (simp add: block_end_def)
next
  case (Cons a t)
  then obtain c s where t: "tail = nl # c # s" "\<not> isspace c"
    using assms by (auto simp: tail_ok_def)
  have "c \<noteq> nl" using t(2) isspace_nl by metis
  then show ?thesis
    unfolding t(1) block_end_def using t(2) by (simp add: shorter_def)
qed

lemma snd_capture [simp]: "snd (capture k st st') = snd st'"
  by (simp add: capture_def)

lemma lines_text_hd:
  assumes "\<forall>l \<in> set ls. line_ok l" and "k < length ls"
  shows "\<exists>c s. lines_text (drop k ls) @ tail = c # s \<and> c \<noteq> nl"
proof -
  obtain l ls' where d: "drop k ls = l # ls'"
    using assms(2) by (cases "drop k ls") auto
  then have "l \<in> set ls" by (metis in_set_dropD list.set_intros(1))
  then have "line_ok l" using assms(1) by blast
  then obtain c l' where "l = c # l'" "c \<noteq> nl"
    by (cases l) (auto simp: line_ok_def)
  then show ?thesis by (simp add: d lines_text_def)
qed

lemma text_group_first:
  assumes "ls \<noteq> []" and "\<forall>l \<in> set ls. line_ok l" and "tail_ok tail"
  shows "first_result (ms (Seq (Group k (LazyPlus text_line)) block_end) (g, lines_text ls @ tail)) =
           Some ((k, lines_text ls) # g, tail)"
proof -
  obtain l ls' where ls: "ls = l # ls'" using assms(1) by (cases ls) auto
  let ?st0 = "(g, lines_text ls @ tail)" and ?x1 = "(g, lines_text ls' @ tail)"
  let ?h = "\<lambda>st. ms block_end (capture k ?st0 st)"
  have x0: "lines_text ls @ tail = l @ nl # lines_text ls' @ tail"
    by (simp add: lines_text_def ls)
  have "first_result (ms text_line ?st0) = Some ?x1"
    unfolding x0 by (rule text_line_first) (use assms(2) ls in simp)
  then obtain junk where f: "ms text_line ?st0 = ?x1 # junk"
    by (cases "ms text_line ?st0") auto
  have lazy: "first_result (concat (map ?h
      (lazy_star (ms text_line) (length (lines_text ls' @ tail)) ?x1))) =
      Some ((k, lines_text ls) # g, tail)"
  proof (rule lazy_lines)
    show "\<forall>l \<in> set ls'. line_ok l" using assms(2) ls by simp
    show "length (lines_text ls' @ tail) \<le> length (lines_text ls' @ tail)" by simp
    show "?h (g, lines_text (drop j ls') @ tail) = []" if "j < length ls'" for j
    proof -
      have "\<forall>l \<in> set ls'. line_ok l" using assms(2) ls by simp
      from lines_text_hd [OF this that, of tail]
      obtain c s where "lines_text (drop j ls') @ tail = c # s" "c \<noteq> nl"
        by blast
      then show ?thesis by (simp add: capture_def block_end_fail)
    qed
    show "first_result (?h (g, tail)) = Some ((k, lines_text ls) # g, tail)"
      by (simp add: capture_append block_end_tail [OF assms(3)])
  qed
  have "ms (Seq (Group k (LazyPlus text_line)) block_end) ?st0 =
      concat (map ?h (lazy_star (ms text_line) (length (lines_text ls' @ tail)) ?x1)) @
      concat (map ?h (concat (map (\<lambda>st'. lazy_star (ms text_line) (length (snd st')) st') junk)))"
    by (simp add: f map_concat comp_def del: ms.simps(1-5) ms.simps(7-9))
  then show ?thesis
    using lazy by (simp only: first_result_append)
qed

lemma block_match:
  assumes ds: "ds \<noteq> []" "\<forall>c \<in> set ds. isdigit c"
    and s: "is_timestamp s" and e: "is_timestamp e"
    and ls: "ls \<noteq> []" "\<forall>l \<in> set ls. line_ok l"
    and first: "nl \<notin> set (takeWhile isspace (lines_text ls @ tail))"
    and tail: "tail_ok tail"
  shows "first_result
           (ms block_pattern (g, ds @ nl # s @ '' --> '' @ e @ nl # lines_text ls @ tail)) =
         Some ((4, lines_text ls) # (3, e) # (2, s) # (1, ds) # g, tail)"
proof -
  let ?g1 = "(1, ds) # g"
  let ?g2 = "(2, s) # ?g1"
  let ?g3 = "(3, e) # ?g2"
  let ?s3 = "e @ nl # lines_text ls @ tail"
  let ?s1 = "s @ '' --> '' @ ?s3"
  have n: "first_result (ms (Group 1 (Plus Digit)) (g, ds @ nl # ?s1)) = Some (?g1, nl # ?s1)"
    by (rule number_first) (use ds in \<open>auto simp: isdigit_def\<close>)
  have tw: "nl \<notin> set (takeWhile isspace ?s1)"
    using timestamp_hd [OF s] isdigit_not_space by (cases s) auto
  let ?R6 = "Seq (Group 4 (LazyPlus text_line)) block_end"
  let ?R5 = "Seq (Star Space) (Seq (Lit nl) ?R6)"
  let ?R4 = "Seq (Star Space) (Seq (Group 3 timestamp) ?R5)"
  let ?R3 = "Seq (Star Space) (Seq (Lit CHR ''-'') (Seq (Lit CHR ''-'') (Seq (Lit CHR ''>'') ?R4)))"
  let ?R2 = "Seq (Group 2 timestamp) ?R3"
  let ?R1 = "Seq (Star Space) (Seq (Lit nl) ?R2)"
  have "ms ?R1 (?g1, nl # ?s1) = ms ?R2 (?g1, ?s1)"
    by (rule star_space_nl [OF tw])
  also have "\<dots> = ms ?R3 (?g2, '' -->'' @ CHR '' '' # ?s3)"
    using timestamp_step [OF s, of 2 ?R3 ?g1 "'' -->'' @ CHR '' '' # ?s3"] by simp
  also have "\<dots> = ms ?R4 (?g2, CHR '' '' # ?s3)"
    by (rule arrow_step)
  also have "\<dots> = ms ?R5 (?g3, nl # lines_text ls @ tail)"
    using space_timestamp_step [OF e, of 3 ?R5 ?g2 "nl # lines_text ls @ tail"] by simp
  also have "\<dots> = ms ?R6 (?g3, lines_text ls @ tail)"
    by (rule star_space_nl [OF first])
  finally have "first_result (ms ?R1 (?g1, nl # ?s1)) = Some ((4, lines_text ls) # ?g3, tail)"
    using text_group_first [OF ls tail, of 4 ?g3] by simp
  with n show ?thesis
    unfolding block_pattern_def by (rule first_seq)
qed

section \<open>Parsing a formatted list\<close>

lemma finditer_found:
  assumes "first_result (ms r ([], s)) = Some (g, rest)" and "length rest < length s"
  shows "finditer r s = g # finditer r rest"
  using assms by (subst finditer.simps) (simp add: match_here_first)

lemma finditer_skip:
  assumes "ms r ([], c # t) = []"
  shows "finditer r (c # t) = finditer r t"
  using assms by (subst finditer.simps) (simp add: match_here_def)

lemma finditer_Nil:
  assumes "ms r ([], []) = []"
  shows "finditer r [] = []"
  using assms by (subst finditer.simps) (simp add: match_here_def)

lemma block_pattern_Nil: "ms block_pattern (g, []) = []"
  by (simp add: block_pattern_def)

lemma block_pattern_nondigit: "\<not> isdigit c \<Longrightarrow> ms block_pattern (g, c # t) = []"
  by (simp add: block_pattern_def)

lemma join_Cons: "ys \<noteq> [] \<Longrightarrow> join sep (x # ys) = x @ sep @ join sep ys"
  by (cases ys) auto

lemma join_append:
  "xs \<noteq> [] \<Longrightarrow> ys \<noteq> [] \<Longrightarrow> join sep (xs @ ys) = join sep xs @ sep @ join sep ys"
proof (induction xs)
  case Nil
  then show ?case by simp
next
  case (Cons x xs)
  show ?case
  proof (cases "xs = []")
    case True
    then show ?thesis using Cons.prems by (simp add: join_Cons)
  next
    case False
    then show ?thesis using Cons by (simp add: join_Cons)
  qed
qed

lemma join_lines: "join [nl] (ls @ [[]]) = lines_text ls"
  by (induction ls) (auto simp: join_Cons lines_text_def)

lemma join_block_lines: "join [nl] (block_lines e) = block_text e"
proof -
  have "join [nl] (block_lines e) =
      str_int (number e) @ [nl] @ (start_time e @ '' --> '' @ end_time e) @ [nl]
        @ join [nl] (text_lines e @ [[]])"
    unfolding block_lines_def by (simp add: join_Cons)
  then show ?thesis by (simp add: join_lines block_text_def)
qed

lemma format_srt_Nil: "format_srt [] = []"
  by (simp add: format_srt_def)

lemma format_srt_Cons:
  "format_srt (e # es) = block_text e @ (if es = [] then [] else nl # format_srt es)"
proof (cases es)
  case Nil
  then show ?thesis by (simp add: format_srt_def join_block_lines)
next
  case (Cons a as)
  have "block_lines e \<noteq> []" "concat (map block_lines es) \<noteq> []"
    using Cons by (simp_all add: block_lines_def)
  then have "join [nl] (block_lines e @ concat (map block_lines es)) =
      join [nl] (block_lines e) @ [nl] @ join [nl] (concat (map block_lines es))"
    by (rule join_append)
  then show ?thesis using Cons by (simp add: format_srt_def join_block_lines)
qed

lemma digit_char: "k < 10 \<Longrightarrow> isdigit (char_of (48 + k)) \<and> int (of_char (char_of (48 + k))) - 48 = int k"
  by (simp add: isdigit_def)

lemma str_nat_small: "n < 10 \<Longrightarrow> str_nat n = [char_of (48 + n)]"
  by (subst str_nat.simps) simp

lemma str_nat_large: "\<not> n < 10 \<Longrightarrow> str_nat n = str_nat (n div 10) @ [char_of (48 + n mod 10)]"
  by (subst str_nat.simps) simp

lemma str_nat_digits: "str_nat n \<noteq> [] \<and> (\<forall>c \<in> set (str_nat n). isdigit c)"
proof (induction n rule: str_nat.induct)
  case (1 n)
  show ?case
  proof (cases "n < 10")
    case True
    then show ?thesis using digit_char [of n] by (simp add: str_nat_small)
  next
    case False
    have "n mod 10 < 10" by simp
    then have "isdigit (char_of (48 + n mod 10))" using digit_char by blast
    then show ?thesis using False 1 by (simp add: str_nat_large)
  qed
qed

lemma py_int_snoc: "py_int (xs @ [c]) = 10 * py_int xs + (int (of_char c) - 48)"
  by (simp add: py_int_def)

lemma py_int_str_nat: "py_int (str_nat n) = int n"
proof (induction n rule: str_nat.induct)
  case (1 n)
  show ?case
  proof (cases "n < 10")
    case True
    then show ?thesis using digit_char [of n]
      by (simp add: str_nat_small py_int_def)
  next
    case False
    have "n mod 10 < 10" by simp
    then have d: "int (of_char (char_of (48 + n mod 10))) - 48 = int (n mod 10)"
      using digit_char by blast
    have "py_int (str_nat n) = 10 * int (n div 10) + int (n mod 10)"
      using False 1 d by (simp add: str_nat_large py_int_snoc)
    also have "\<dots> = int n" by presburger
    finally show ?thesis .
  qed
qed

lemma split_on_line: "nl \<notin> set l \<Longrightarrow> split_on nl (l @ nl # rest) = l # split_on nl rest"
  by (induction l) auto

lemma split_on_lines:
  "\<forall>l \<in> set ls. nl \<notin> set l \<Longrightarrow> split_on nl (lines_text ls) = ls @ [[]]"
proof (induction ls)
  case Nil
  show ?case by (simp add: lines_text_def)
next
  case (Cons l ls)
  have "lines_text (l # ls) = l @ nl # lines_text ls" by (simp add: lines_text_def)
  then show ?case using Cons by (simp add: split_on_line)
qed

lemma well_formed_lines:
  assumes "entry_well_formed e"
  shows "text_lines e \<noteq> []" and "\<forall>l \<in> set (text_lines e). line_ok l"
    and "\<forall>l \<in> set (text_lines e). strip l \<noteq> []"
proof -
  have "strip [] = []" by (simp add: strip_def)
  then show "text_lines e \<noteq> []" and "\<forall>l \<in> set (text_lines e). line_ok l"
    and "\<forall>l \<in> set (text_lines e). strip l \<noteq> []"
    using assms by (auto simp: entry_well_formed_def list_all_iff line_ok_def)
qed

lemma entry_of_captures:
  assumes "entry_well_formed e"
  shows "entry_of_match (captures_of e) = e\<lparr>number := \<bar>number e\<bar>\<rparr>"
proof -
  have l: "\<forall>l \<in> set (text_lines e). nl \<notin> set l" "\<forall>l \<in> set (text_lines e). l \<noteq> []"
    using well_formed_lines(2) [OF assms] by (auto simp: line_ok_def)
  have "filter (\<lambda>line. line \<noteq> []) (split_on nl (lines_text (text_lines e))) = text_lines e"
    using l by (simp add: split_on_lines filter_id_conv)
  then show ?thesis
    by (simp add: entry_of_match_def captures_of_def group_def py_int_str_nat)
qed

lemma str_int_sign:
  "str_int i = (if i < 0 then [CHR ''-''] else []) @ str_nat (nat \<bar>i\<bar>)"
  by (simp add: str_int_def)

lemma block_text_hd: "\<exists>c s. block_text e = c # s \<and> \<not> isspace c"
proof -
  obtain d ds where d: "str_nat (nat \<bar>number e\<bar>) = d # ds" "isdigit d"
    using str_nat_digits [of "nat \<bar>number e\<bar>"] by (cases "str_nat (nat \<bar>number e\<bar>)") auto
  have "\<not> isspace CHR ''-''" by (simp add: isspace_def)
  then show ?thesis
    using d isdigit_not_space [of d] by (cases "number e < 0") (auto simp: block_text_def str_int_sign)
qed

lemma format_tail_ok: "tail_ok (if es = [] then [] else nl # format_srt es)"
proof (cases es)
  case Nil
  then show ?thesis by (simp add: tail_ok_def)
next
  case (Cons a as)
  obtain c s where "block_text a = c # s" "\<not> isspace c" using block_text_hd by blast
  then show ?thesis using Cons by (simp add: tail_ok_def format_srt_Cons)
qed

lemma first_line_run:
  assumes "entry_well_formed e"
  shows "nl \<notin> set (takeWhile isspace (lines_text (text_lines e) @ tail))"
proof -
  obtain l ls where ls: "text_lines e = l # ls"
    using well_formed_lines(1) [OF assms] by (cases "text_lines e") auto
  have "strip l \<noteq> []" "nl \<notin> set l"
    using well_formed_lines(2,3) [OF assms] ls by (auto simp: line_ok_def)
  then obtain c where c: "c \<in> set l" "\<not> isspace c"
    by (auto simp: strip_empty_iff)
  have "takeWhile isspace (l @ nl # lines_text ls @ tail) = takeWhile isspace l"
    using c by (rule takeWhile_append1)
  moreover have "lines_text (text_lines e) @ tail = l @ nl # lines_text ls @ tail"
    by (simp add: ls lines_text_def)
  ultimately show ?thesis
    using \<open>nl \<notin> set l\<close> by (auto dest: set_takeWhileD)
qed

lemma finditer_block:
  assumes "entry_well_formed e" and "tail_ok tail"
  shows "finditer block_pattern (block_text e @ tail) = captures_of e # finditer block_pattern tail"
proof -
  let ?ds = "str_nat (nat \<bar>number e\<bar>)"
  let ?w = "?ds @ nl # start_time e @ '' --> '' @ end_time e @ nl # lines_text (text_lines e) @ tail"
  have "first_result (ms block_pattern ([], ?w)) =
      Some ((4, lines_text (text_lines e)) # (3, end_time e) # (2, start_time e) # (1, ?ds) # [], tail)"
    using assms str_nat_digits [of "nat \<bar>number e\<bar>"] well_formed_lines [OF assms(1)]
      first_line_run [OF assms(1)]
    by (intro block_match) (auto simp: entry_well_formed_def)
  then have w: "finditer block_pattern ?w = captures_of e # finditer block_pattern tail"
    unfolding captures_of_def by (rule finditer_found) simp
  have b: "block_text e = (if number e < 0 then [CHR ''-''] else []) @
      ?ds @ nl # start_time e @ '' --> '' @ end_time e @ nl # lines_text (text_lines e)"
    by (simp add: block_text_def str_int_sign)
  show ?thesis
  proof (cases "number e < 0")
    case True
    have "\<not> isdigit CHR ''-''" by (simp add: isdigit_def)
    then have "finditer block_pattern (CHR ''-'' # ?w) = finditer block_pattern ?w"
      by (intro finditer_skip block_pattern_nondigit)
    then show ?thesis using True w by (simp add: b)
  next
    case False
    then show ?thesis using w by (simp add: b)
  qed
qed

lemma finditer_format:
  "list_all entry_well_formed es \<Longrightarrow>
     finditer block_pattern (format_srt es) = map captures_of es"
proof (induction es)
  case Nil
  show ?case by (simp add: format_srt_Nil finditer_Nil block_pattern_Nil)
next
  case (Cons e es)
  let ?tail = "if es = [] then [] else nl # format_srt es"
  have "finditer block_pattern (format_srt (e # es)) =
      captures_of e # finditer block_pattern ?tail"
    unfolding format_srt_Cons
    by (rule finditer_block [OF _ format_tail_ok]) (use Cons.prems in simp)
  moreover have "finditer block_pattern ?tail = map captures_of es"
  proof (cases es)
    case Nil
    then show ?thesis by (simp add: finditer_Nil block_pattern_Nil)
  next
    case (Cons a as)
    have "\<not> isdigit nl" by (simp add: isdigit_def)
    then have "finditer block_pattern (nl # format_srt es) = finditer block_pattern (format_srt es)"
      by (intro finditer_skip block_pattern_nondigit)
    then show ?thesis using Cons Cons.IH Cons.prems by simp
  qed
  ultimately show ?case by simp
qed

lemma parse_format:
  assumes "list_all entry_well_formed es"
  shows "parse_srt (format_srt es) = map (\<lambda>e. e\<lparr>number := \<bar>number e\<bar>\<rparr>) es"
  using assms
  by (simp add: parse_srt_def finditer_format list_all_iff entry_of_captures)

section \<open>Cleaning a list without duplicates\<close>

lemma cleaned_all:
  "\<forall>l \<in> set (text_lines e). strip l \<noteq> [] \<Longrightarrow> get_cleaned_lines e = text_lines e"
  by (simp add: get_cleaned_lines_def filter_id_conv)

lemma rd_rest_id:
  assumes "\<forall>e \<in> set (p # es). \<forall>l \<in> set (text_lines e). strip l \<noteq> []"
    and "no_adjacent_duplicate (p # es)"
  shows "rd_rest p es = es"
  using assms
proof (induction es arbitrary: p)
  case Nil
  show ?case by simp
next
  case (Cons c es)
  have "hd (get_cleaned_lines c) \<noteq> last (get_cleaned_lines p)"
    using Cons.prems by (simp add: cleaned_all)
  then have "entry_after p c = c" "appended p c"
    by (simp_all add: entry_after_def appended_def)
  moreover have "rd_rest c es = es"
    using Cons.prems by (intro Cons.IH) simp_all
  ultimately show ?case by simp
qed

lemma remove_duplicates_id:
  assumes "\<forall>e \<in> set es. \<forall>l \<in> set (text_lines e). strip l \<noteq> []"
    and "no_adjacent_duplicate es"
  shows "remove_duplicates es = es"
  using assms by (cases es) (simp_all add: remove_duplicates_Nil remove_duplicates_Cons rd_rest_id)

lemma deep_cleaning_id:
  assumes "list_all entry_well_formed es" and "no_adjacent_duplicate es"
  shows "perform_deep_cleaning es = renumber 1 es"
proof -
  have nb: "\<forall>e \<in> set es. \<forall>l \<in> set (text_lines e). strip l \<noteq> []"
    using assms(1) well_formed_lines(3) by (auto simp: list_all_iff)
  have rd: "remove_duplicates es = es"
    using nb assms(2) by (rule remove_duplicates_id)
  have "clean_loop 5 es = es"
    by (simp add: numeral_eq_Suc rd)
  moreover have "filter (\<lambda>entry. \<not> is_empty entry) es = es"
  proof -
    have "\<not> is_empty e" if "e \<in> set es" for e
      using that assms(1) well_formed_lines(1,3) [of e]
      by (cases "text_lines e") (auto simp: list_all_iff is_empty_def)
    then show ?thesis by (simp add: filter_id_conv)
  qed
  ultimately show ?thesis by (simp add: perform_deep_cleaning_def)
qed

lemma well_formed_number [simp]: "entry_well_formed (e\<lparr>number := n\<rparr>) = entry_well_formed e"
  by (simp add: entry_well_formed_def)

lemma no_adjacent_duplicate_number:
  "no_adjacent_duplicate (map (\<lambda>e. e\<lparr>number := f e\<rparr>) es) = no_adjacent_duplicate es"
  by (induction es rule: no_adjacent_duplicate.induct) simp_all

lemma renumber_number: "renumber i (map (\<lambda>e. e\<lparr>number := f e\<rparr>) es) = renumber i es"
  by (induction es arbitrary: i) simp_all

lemma renumber_id:
  "map number es = map (\<lambda>k. i + int k) [0..<length es] \<Longrightarrow> renumber i es = es"
proof (induction es arbitrary: i)
  case Nil
  show ?case by simp
next
  case (Cons e es)
  have u: "[0..<length (e # es)] = 0 # map Suc [0..<length es]"
    by (simp add: upt_conv_Cons map_Suc_upt del: upt_Suc)
  have "number e = i" and "map number es = map (\<lambda>k. (i + 1) + int k) [0..<length es]"
    using Cons.prems unfolding u by (simp_all add: comp_def add.assoc)
  then show ?case using Cons.IH [of "i + 1"] by simp
qed

lemma split_on_nonempty: "split_on sep s \<noteq> []"
  by (induction s) auto

lemma split_on_no_sep: "l \<in> set (split_on sep s) \<Longrightarrow> sep \<notin> set l"
proof (induction s arbitrary: l)
  case Nil
  then show ?case by simp
next
  case (Cons c cs)
  show ?case
  proof (cases "c = sep")
    case True
    then show ?thesis using Cons by auto
  next
    case False
    obtain x xs where x: "split_on sep cs = x # xs"
      using split_on_nonempty [of sep cs] by (cases "split_on sep cs") auto
    then show ?thesis using False Cons by auto
  qed
qed

section \<open>The claims\<close>




text \<open>
  C2 (the code departs from the claim): cleaning the output of \<open>perform_deep_cleaning\<close>
  again can change it. For the entries \<open>A\<close> and \<open>A, A\<close> the only pass trims the second
  entry to \<open>A\<close> and drops nothing, so the loop stops on the unchanged count; the output
  still has the second entry start with the line that ends the first, and a second
  cleaning drops that entry.
\<close>

theorem deep_cleaning_not_idempotent:
  "perform_deep_cleaning
      [\<lparr>number = 1, start_time = ''00:00:01,000'', end_time = ''00:00:02,000'', text_lines = [''A'']\<rparr>,
       \<lparr>number = 2, start_time = ''00:00:02,000'', end_time = ''00:00:03,000'', text_lines = [''A'', ''A'']\<rparr>]
     = [\<lparr>number = 1, start_time = ''00:00:01,000'', end_time = ''00:00:02,000'', text_lines = [''A'']\<rparr>,
       \<lparr>number = 2, start_time = ''00:00:02,000'', end_time = ''00:00:03,000'', text_lines = [''A'']\<rparr>]
   \<and> perform_deep_cleaning (perform_deep_cleaning
      [\<lparr>number = 1, start_time = ''00:00:01,000'', end_time = ''00:00:02,000'', text_lines = [''A'']\<rparr>,
       \<lparr>number = 2, start_time = ''00:00:02,000'', end_time = ''00:00:03,000'', text_lines = [''A'', ''A'']\<rparr>])
     = [\<lparr>number = 1, start_time = ''00:00:01,000'', end_time = ''00:00:02,000'', text_lines = [''A'']\<rparr>]"
  by code_simp

text \<open>
  C3 (as stated, refuted): in a pass, every pair of consecutive entries that both have a
  non-empty line, with the first non-empty line of the current entry equal to the last
  non-empty line of the previous one, would have the first raw line of the current entry
  removed. In the list of the entries \<open>X\<close>, \<open>X\<close> and \<open>X, Y\<close> the second and the third
  entry both have a non-empty line and the third starts with the line that ends the
  second; but the pass has emptied and dropped the second entry when it examines the
  third, so the third is appended with both of its lines.
\<close>

theorem pass_step_counterexample:
  "\<not> is_empty
     ([\<lparr>number = 1, start_time = ''00:00:01,000'', end_time = ''00:00:02,000'', text_lines = [''X'']\<rparr>,
      \<lparr>number = 2, start_time = ''00:00:02,000'', end_time = ''00:00:03,000'', text_lines = [''X'']\<rparr>,
      \<lparr>number = 3, start_time = ''00:00:03,000'', end_time = ''00:00:04,000'', text_lines = [''X'', ''Y'']\<rparr>] ! 1)
   \<and> \<not> is_empty
     ([\<lparr>number = 1, start_time = ''00:00:01,000'', end_time = ''00:00:02,000'', text_lines = [''X'']\<rparr>,
      \<lparr>number = 2, start_time = ''00:00:02,000'', end_time = ''00:00:03,000'', text_lines = [''X'']\<rparr>,
      \<lparr>number = 3, start_time = ''00:00:03,000'', end_time = ''00:00:04,000'', text_lines = [''X'', ''Y'']\<rparr>] ! 2)
   \<and> first_nonempty
     ([\<lparr>number = 1, start_time = ''00:00:01,000'', end_time = ''00:00:02,000'', text_lines = [''X'']\<rparr>,
      \<lparr>number = 2, start_time = ''00:00:02,000'', end_time = ''00:00:03,000'', text_lines = [''X'']\<rparr>,
      \<lparr>number = 3, start_time = ''00:00:03,000'', end_time = ''00:00:04,000'', text_lines = [''X'', ''Y'']\<rparr>] ! 2)
     = last_nonempty
     ([\<lparr>number = 1, start_time = ''00:00:01,000'', end_time = ''00:00:02,000'', text_lines = [''X'']\<rparr>,
      \<lparr>number = 2, start_time = ''00:00:02,000'', end_time = ''00:00:03,000'', text_lines = [''X'']\<rparr>,
      \<lparr>number = 3, start_time = ''00:00:03,000'', end_time = ''00:00:04,000'', text_lines = [''X'', ''Y'']\<rparr>] ! 1)
   \<and> remove_duplicates
     [\<lparr>number = 1, start_time = ''00:00:01,000'', end_time = ''00:00:02,000'', text_lines = [''X'']\<rparr>,
      \<lparr>number = 2, start_time = ''00:00:02,000'', end_time = ''00:00:03,000'', text_lines = [''X'']\<rparr>,
      \<lparr>number = 3, start_time = ''00:00:03,000'', end_time = ''00:00:04,000'', text_lines = [''X'', ''Y'']\<rparr>]
     = [\<lparr>number = 1, start_time = ''00:00:01,000'', end_time = ''00:00:02,000'', text_lines = [''X'']\<rparr>,
        \<lparr>number = 3, start_time = ''00:00:03,000'', end_time = ''00:00:04,000'', text_lines = [''X'', ''Y'']\<rparr>]"
  by code_simp

text \<open>
  C3 (amended): in a pass, for every pair of consecutive entries that both have a
  non-empty line when iteration \<open>i\<close> examines the pair (the previous entry being the
  object the loop reads, entry \<open>i - 1\<close> in its present state as left by the earlier
  iterations of the same pass; the current entry being entry \<open>i\<close> of the input, untouched
  so far): if the first non-empty line of the current entry equals the last non-empty
  line of the previous one, the first raw line of the current entry is removed (no line
  is left when it had one line), the entry is dropped when it then has no non-empty line
  and is appended trimmed otherwise; when the lines differ, the entry is appended
  unchanged.
\<close>

theorem pass_step_rule:
  assumes "1 \<le> i" and "i < length entries"
    and "prev = prev_read entries i" and "current = entries ! i"
    and "\<not> is_empty prev" and "\<not> is_empty current"
  shows "fst (rd_state_at entries i) ! i = current
         \<and> rd_state_at entries (Suc i) =
             (let es = fst (rd_state_at entries i); result = snd (rd_state_at entries i);
                  current' = current\<lparr>text_lines := tl (text_lines current)\<rparr>
              in if first_nonempty current = last_nonempty prev
                 then (es[i := current'], if is_empty current' then result else result @ [current'])
                 else (es, result @ [current]))"
proof -
  have cur: "fst (rd_state_at entries i) ! i = current"
    using assms rd_state_at_current [of i entries] by simp
  have prv: "fst (rd_state_at entries i) ! (i - 1) = prev"
    using assms by (simp add: prev_read_def)
  have ne: "get_cleaned_lines prev \<noteq> []" "get_cleaned_lines current \<noteq> []"
    using assms by (simp_all add: is_empty_cleaned)
  have "rd_step i (rd_state_at entries i) =
             (let es = fst (rd_state_at entries i); result = snd (rd_state_at entries i);
                  current' = current\<lparr>text_lines := tl (text_lines current)\<rparr>
              in if first_nonempty current = last_nonempty prev
                 then (es[i := current'], if is_empty current' then result else result @ [current'])
                 else (es, result @ [current]))"
    unfolding rd_step_def Let_def cur prv
    using assms(5,6) ne
    by (simp add: first_nonempty_def last_nonempty_def drop_first_line_tl)
  then show ?thesis using cur assms(1) by (simp add: rd_state_at_Suc)
qed

theorem pass_step_rule_witness:
  "(1::nat) \<le> 1
   \<and> 1 < length
      [\<lparr>number = 1, start_time = ''00:00:01,000'', end_time = ''00:00:02,000'', text_lines = [''A'', ''B'']\<rparr>,
       \<lparr>number = 2, start_time = ''00:00:02,000'', end_time = ''00:00:03,000'', text_lines = [''B'', ''C'']\<rparr>]
   \<and> \<not> is_empty (prev_read
      [\<lparr>number = 1, start_time = ''00:00:01,000'', end_time = ''00:00:02,000'', text_lines = [''A'', ''B'']\<rparr>,
       \<lparr>number = 2, start_time = ''00:00:02,000'', end_time = ''00:00:03,000'', text_lines = [''B'', ''C'']\<rparr>] 1)
   \<and> \<not> is_empty
      ([\<lparr>number = 1, start_time = ''00:00:01,000'', end_time = ''00:00:02,000'', text_lines = [''A'', ''B'']\<rparr>,
       \<lparr>number = 2, start_time = ''00:00:02,000'', end_time = ''00:00:03,000'', text_lines = [''B'', ''C'']\<rparr>] ! 1)
   \<and> rd_state_at
      [\<lparr>number = 1, start_time = ''00:00:01,000'', end_time = ''00:00:02,000'', text_lines = [''A'', ''B'']\<rparr>,
       \<lparr>number = 2, start_time = ''00:00:02,000'', end_time = ''00:00:03,000'', text_lines = [''B'', ''C'']\<rparr>] (Suc 1)
     = ([\<lparr>number = 1, start_time = ''00:00:01,000'', end_time = ''00:00:02,000'', text_lines = [''A'', ''B'']\<rparr>,
       \<lparr>number = 2, start_time = ''00:00:02,000'', end_time = ''00:00:03,000'', text_lines = [''C'']\<rparr>],
        [\<lparr>number = 1, start_time = ''00:00:01,000'', end_time = ''00:00:02,000'', text_lines = [''A'', ''B'']\<rparr>,
       \<lparr>number = 2, start_time = ''00:00:02,000'', end_time = ''00:00:03,000'', text_lines = [''C'']\<rparr>])
   \<and> remove_duplicates
      [\<lparr>number = 1, start_time = ''00:00:01,000'', end_time = ''00:00:02,000'', text_lines = [''A'', ''B'']\<rparr>,
       \<lparr>number = 2, start_time = ''00:00:02,000'', end_time = ''00:00:03,000'', text_lines = [''B'', ''C'']\<rparr>]
     = [\<lparr>number = 1, start_time = ''00:00:01,000'', end_time = ''00:00:02,000'', text_lines = [''A'', ''B'']\<rparr>,
       \<lparr>number = 2, start_time = ''00:00:02,000'', end_time = ''00:00:03,000'', text_lines = [''C'']\<rparr>]"
  using pass_step_rule [of 1
      "[\<lparr>number = 1, start_time = ''00:00:01,000'', end_time = ''00:00:02,000'', text_lines = [''A'', ''B'']\<rparr>,
       \<lparr>number = 2, start_time = ''00:00:02,000'', end_time = ''00:00:03,000'', text_lines = [''B'', ''C'']\<rparr>]"
      "prev_read
      [\<lparr>number = 1, start_time = ''00:00:01,000'', end_time = ''00:00:02,000'', text_lines = [''A'', ''B'']\<rparr>,
       \<lparr>number = 2, start_time = ''00:00:02,000'', end_time = ''00:00:03,000'', text_lines = [''B'', ''C'']\<rparr>] 1"
      "[\<lparr>number = 1, start_time = ''00:00:01,000'', end_time = ''00:00:02,000'', text_lines = [''A'', ''B'']\<rparr>,
       \<lparr>number = 2, start_time = ''00:00:02,000'', end_time = ''00:00:03,000'', text_lines = [''B'', ''C'']\<rparr>] ! 1"]
  by code_simp

text \<open>
  C4: \<open>perform_deep_cleaning\<close> calls \<open>remove_duplicates\<close> at least once and at most five
  times; \<open>k\<close> calls are made when each of the first \<open>k - 1\<close> changed the number of
  entries, and, for \<open>k\<close> below five, the \<open>k\<close>-th left it unchanged, whatever it did to the
  lines. The result of the loop is then filtered for entries with a non-empty line and
  renumbered, whichever way the loop ended.
\<close>

theorem deep_cleaning_passes:
  "(let k = rd_calls 5 entries
    in 1 \<le> k \<and> k \<le> 5
       \<and> clean_loop 5 entries = (remove_duplicates ^^ k) entries
       \<and> (\<forall>j. 1 \<le> j \<and> j < k \<longrightarrow>
             length ((remove_duplicates ^^ j) entries) \<noteq> length ((remove_duplicates ^^ (j - 1)) entries))
       \<and> (k < 5 \<longrightarrow>
             length ((remove_duplicates ^^ k) entries) = length ((remove_duplicates ^^ (k - 1)) entries)))
   \<and> perform_deep_cleaning entries =
       renumber 1 (filter (\<lambda>entry. \<not> is_empty entry) (clean_loop 5 entries))"
  unfolding Let_def
proof (intro conjI allI impI)
  show "1 \<le> rd_calls 5 entries" "rd_calls 5 entries \<le> 5"
    using rd_calls_bounds [of 5 entries] by simp_all
  show "clean_loop 5 entries = (remove_duplicates ^^ rd_calls 5 entries) entries"
    by (rule clean_loop_funpow)
  show "length ((remove_duplicates ^^ j) entries) \<noteq> length ((remove_duplicates ^^ (j - 1)) entries)"
    if "1 \<le> j \<and> j < rd_calls 5 entries" for j
    using that rd_calls_changes [of j 5 entries] by simp
  show "length ((remove_duplicates ^^ rd_calls 5 entries) entries) =
        length ((remove_duplicates ^^ (rd_calls 5 entries - 1)) entries)"
    if "rd_calls 5 entries < 5"
    using that by (rule rd_calls_stable)
  show "perform_deep_cleaning entries =
       renumber 1 (filter (\<lambda>entry. \<not> is_empty entry) (clean_loop 5 entries))"
    by (simp add: perform_deep_cleaning_def)
qed

theorem deep_cleaning_passes_witness:
  "rd_calls 5 [\<lparr>number = 1, start_time = ''00:00:01,000'', end_time = ''00:00:02,000'', text_lines = [''X'']\<rparr>,
       \<lparr>number = 2, start_time = ''00:00:02,000'', end_time = ''00:00:03,000'', text_lines = [''X'']\<rparr>,
       \<lparr>number = 3, start_time = ''00:00:03,000'', end_time = ''00:00:04,000'', text_lines = [''X'']\<rparr>] = 3
   \<and> clean_loop 5 [\<lparr>number = 1, start_time = ''00:00:01,000'', end_time = ''00:00:02,000'', text_lines = [''X'']\<rparr>,
       \<lparr>number = 2, start_time = ''00:00:02,000'', end_time = ''00:00:03,000'', text_lines = [''X'']\<rparr>,
       \<lparr>number = 3, start_time = ''00:00:03,000'', end_time = ''00:00:04,000'', text_lines = [''X'']\<rparr>]
     = (remove_duplicates ^^ 3) [\<lparr>number = 1, start_time = ''00:00:01,000'', end_time = ''00:00:02,000'', text_lines = [''X'']\<rparr>,
       \<lparr>number = 2, start_time = ''00:00:02,000'', end_time = ''00:00:03,000'', text_lines = [''X'']\<rparr>,
       \<lparr>number = 3, start_time = ''00:00:03,000'', end_time = ''00:00:04,000'', text_lines = [''X'']\<rparr>]
   \<and> length ((remove_duplicates ^^ 2) [\<lparr>number = 1, start_time = ''00:00:01,000'', end_time = ''00:00:02,000'', text_lines = [''X'']\<rparr>,
       \<lparr>number = 2, start_time = ''00:00:02,000'', end_time = ''00:00:03,000'', text_lines = [''X'']\<rparr>,
       \<lparr>number = 3, start_time = ''00:00:03,000'', end_time = ''00:00:04,000'', text_lines = [''X'']\<rparr>])
     \<noteq> length ((remove_duplicates ^^ (2 - 1)) [\<lparr>number = 1, start_time = ''00:00:01,000'', end_time = ''00:00:02,000'', text_lines = [''X'']\<rparr>,
       \<lparr>number = 2, start_time = ''00:00:02,000'', end_time = ''00:00:03,000'', text_lines = [''X'']\<rparr>,
       \<lparr>number = 3, start_time = ''00:00:03,000'', end_time = ''00:00:04,000'', text_lines = [''X'']\<rparr>])
   \<and> length ((remove_duplicates ^^ 3) [\<lparr>number = 1, start_time = ''00:00:01,000'', end_time = ''00:00:02,000'', text_lines = [''X'']\<rparr>,
       \<lparr>number = 2, start_time = ''00:00:02,000'', end_time = ''00:00:03,000'', text_lines = [''X'']\<rparr>,
       \<lparr>number = 3, start_time = ''00:00:03,000'', end_time = ''00:00:04,000'', text_lines = [''X'']\<rparr>])
     = length ((remove_duplicates ^^ (3 - 1)) [\<lparr>number = 1, start_time = ''00:00:01,000'', end_time = ''00:00:02,000'', text_lines = [''X'']\<rparr>,
       \<lparr>number = 2, start_time = ''00:00:02,000'', end_time = ''00:00:03,000'', text_lines = [''X'']\<rparr>,
       \<lparr>number = 3, start_time = ''00:00:03,000'', end_time = ''00:00:04,000'', text_lines = [''X'']\<rparr>])
   \<and> perform_deep_cleaning [\<lparr>number = 1, start_time = ''00:00:01,000'', end_time = ''00:00:02,000'', text_lines = [''X'']\<rparr>,
       \<lparr>number = 2, start_time = ''00:00:02,000'', end_time = ''00:00:03,000'', text_lines = [''X'']\<rparr>,
       \<lparr>number = 3, start_time = ''00:00:03,000'', end_time = ''00:00:04,000'', text_lines = [''X'']\<rparr>]
     = [\<lparr>number = 1, start_time = ''00:00:01,000'', end_time = ''00:00:02,000'', text_lines = [''X'']\<rparr>]
   \<and> rd_calls 5 [\<lparr>number = 1, start_time = ''00:00:01,000'', end_time = ''00:00:02,000'', text_lines = [''A'']\<rparr>,
       \<lparr>number = 2, start_time = ''00:00:02,000'', end_time = ''00:00:03,000'', text_lines = [''A'', ''A'']\<rparr>] = 1
   \<and> clean_loop 5 [\<lparr>number = 1, start_time = ''00:00:01,000'', end_time = ''00:00:02,000'', text_lines = [''A'']\<rparr>,
       \<lparr>number = 2, start_time = ''00:00:02,000'', end_time = ''00:00:03,000'', text_lines = [''A'', ''A'']\<rparr>]
     = [\<lparr>number = 1, start_time = ''00:00:01,000'', end_time = ''00:00:02,000'', text_lines = [''A'']\<rparr>,
       \<lparr>number = 2, start_time = ''00:00:02,000'', end_time = ''00:00:03,000'', text_lines = [''A'']\<rparr>]"
  (is "rd_calls 5 ?ex = 3 \<and> _")
proof -
  have k: "rd_calls 5 ?ex = 3"
    by code_simp
  note t = deep_cleaning_passes [of ?ex, unfolded Let_def k, THEN conjunct1]
  note loop = t [THEN conjunct2, THEN conjunct2, THEN conjunct1]
  note changes = t [THEN conjunct2, THEN conjunct2, THEN conjunct2, THEN conjunct1]
  note stable = t [THEN conjunct2, THEN conjunct2, THEN conjunct2, THEN conjunct2]
  have j: "1 \<le> (2::nat) \<and> (2::nat) < 3" by simp
  have lt: "(3::nat) < 5" by simp
  have out: "perform_deep_cleaning ?ex =
      [\<lparr>number = 1, start_time = ''00:00:01,000'', end_time = ''00:00:02,000'', text_lines = [''X'']\<rparr>]"
    by code_simp
  have calls: "rd_calls 5 [\<lparr>number = 1, start_time = ''00:00:01,000'', end_time = ''00:00:02,000'', text_lines = [''A'']\<rparr>,
       \<lparr>number = 2, start_time = ''00:00:02,000'', end_time = ''00:00:03,000'', text_lines = [''A'', ''A'']\<rparr>] = 1"
    by code_simp
  have trimmed: "clean_loop 5 [\<lparr>number = 1, start_time = ''00:00:01,000'', end_time = ''00:00:02,000'', text_lines = [''A'']\<rparr>,
       \<lparr>number = 2, start_time = ''00:00:02,000'', end_time = ''00:00:03,000'', text_lines = [''A'', ''A'']\<rparr>]
     = [\<lparr>number = 1, start_time = ''00:00:01,000'', end_time = ''00:00:02,000'', text_lines = [''A'']\<rparr>,
       \<lparr>number = 2, start_time = ''00:00:02,000'', end_time = ''00:00:03,000'', text_lines = [''A'']\<rparr>]"
    by code_simp
  show ?thesis
    by (intro conjI)
      (rule k loop changes [THEN spec, THEN mp, OF j] stable [THEN mp, OF lt] out calls trimmed)+
qed

text \<open>
  C5: the sequence numbers of the output of \<open>perform_deep_cleaning\<close> are 1, 2, ..., N in
  list order, N being the length of the output, whatever the numbers of the input.
\<close>

theorem deep_cleaning_numbers:
  "map number (perform_deep_cleaning entries) =
     map int [1..<Suc (length (perform_deep_cleaning entries))]"
proof -
  have "map (\<lambda>k. 1 + int k) [0..<n] = map int [1..<Suc n]" for n
    by (induction n) auto
  then show ?thesis
    by (simp add: perform_deep_cleaning_def Let_def number_renumber)
qed

text \<open>
  C6: no entry of the output of \<open>perform_deep_cleaning\<close> has an empty list of text lines,
  or is empty in the sense of \<open>is_empty\<close>; an entry is empty exactly when every character
  of every one of its raw lines is whitespace; so an entry whose only line is three spaces
  is empty, and no output entry has that line list.
\<close>

theorem deep_cleaning_no_empty:
  "(\<forall>e \<in> set (perform_deep_cleaning entries).
       text_lines e \<noteq> [] \<and> \<not> is_empty e \<and> text_lines e \<noteq> [''   ''])
   \<and> (is_empty x \<longleftrightarrow> (\<forall>line \<in> set (text_lines x). \<forall>c \<in> set line. isspace c))
   \<and> is_empty (x\<lparr>text_lines := [''   '']\<rparr>)"
proof (intro conjI ballI)
  fix e assume "e \<in> set (perform_deep_cleaning entries)"
  then obtain y where y: "y \<in> set (filter (\<lambda>entry. \<not> is_empty entry) (clean_loop 5 entries))"
      "text_lines e = text_lines y"
    unfolding perform_deep_cleaning_def Let_def by (blast dest: is_empty_renumber)
  then have ne: "\<not> is_empty e" by (simp add: is_empty_def)
  then show "\<not> is_empty e" .
  show "text_lines e \<noteq> []" using ne by (auto simp: is_empty_def)
  show "text_lines e \<noteq> [''   '']" using ne by (auto simp: is_empty_def strip_def isspace_def)
next
  show "is_empty x \<longleftrightarrow> (\<forall>line \<in> set (text_lines x). \<forall>c \<in> set line. isspace c)"
    by (rule is_empty_iff)
  show "is_empty (x\<lparr>text_lines := [''   '']\<rparr>)"
    by (simp add: is_empty_def strip_def isspace_def)
qed

theorem deep_cleaning_no_empty_witness:
  "perform_deep_cleaning
      [\<lparr>number = 1, start_time = ''00:00:01,000'', end_time = ''00:00:02,000'', text_lines = [''   '']\<rparr>,
       \<lparr>number = 2, start_time = ''00:00:02,000'', end_time = ''00:00:03,000'', text_lines = [''A'']\<rparr>]
     = [\<lparr>number = 1, start_time = ''00:00:02,000'', end_time = ''00:00:03,000'', text_lines = [''A'']\<rparr>]
   \<and> is_empty \<lparr>number = 1, start_time = ''00:00:01,000'', end_time = ''00:00:02,000'', text_lines = [''   '']\<rparr>
   \<and> \<not> is_empty \<lparr>number = 2, start_time = ''00:00:02,000'', end_time = ''00:00:03,000'', text_lines = [''A'']\<rparr>"
  using deep_cleaning_no_empty [of
      "[\<lparr>number = 1, start_time = ''00:00:01,000'', end_time = ''00:00:02,000'', text_lines = [''   '']\<rparr>,
       \<lparr>number = 2, start_time = ''00:00:02,000'', end_time = ''00:00:03,000'', text_lines = [''A'']\<rparr>]"
      "\<lparr>number = 1, start_time = ''00:00:01,000'', end_time = ''00:00:02,000'', text_lines = [''   '']\<rparr>"]
  by code_simp

text \<open>
  C7 (as stated, refuted): the parser would store only lines that have a character other
  than whitespace. The comprehension at source line 60 drops the empty strings and nothing
  else, and \<^verbatim>\<open>.+\<close> matches a line of spaces: the block with the text lines \<open>A\<close> and three
  spaces is parsed into an entry with both lines, the second of which \<open>strip\<close> empties.
\<close>

theorem parser_blank_line_counterexample:
  "parse_srt (''1'' @ [nl] @ ''00:00:01,000 --> 00:00:02,000'' @ [nl] @ ''A'' @ [nl] @ ''   '' @ [nl])
     = [\<lparr>number = 1, start_time = ''00:00:01,000'', end_time = ''00:00:02,000'',
          text_lines = [''A'', ''   '']\<rparr>]
   \<and> strip ''   '' = []"
  by code_simp

text \<open>
  C7 (amended): for every matched block, the parser stores as text lines exactly the
  non-empty strings among the pieces that splitting the block's text portion (group 4) at
  newlines gives, in their order: the parsed list has one entry for each match, in the
  order of the matches, and the text lines of the entries are those filtered pieces of
  the matches; so every stored line has a character and no newline.
\<close>

theorem parsed_text_lines:
  "parse_srt content = map entry_of_match (finditer block_pattern content)
   \<and> map text_lines (parse_srt content) =
       map (\<lambda>g. filter (\<lambda>line. line \<noteq> []) (split_on nl (group g 4)))
         (finditer block_pattern content)
   \<and> (\<forall>e \<in> set (parse_srt content).
         \<forall>line \<in> set (text_lines e). line \<noteq> [] \<and> nl \<notin> set line)"
proof (intro conjI ballI)
  show "parse_srt content = map entry_of_match (finditer block_pattern content)"
    by (simp add: parse_srt_def)
  show m: "map text_lines (parse_srt content) =
       map (\<lambda>g. filter (\<lambda>line. line \<noteq> []) (split_on nl (group g 4)))
         (finditer block_pattern content)"
    by (simp add: parse_srt_def entry_of_match_def comp_def)
  fix e line
  assume "e \<in> set (parse_srt content)" and l: "line \<in> set (text_lines e)"
  then obtain g where "text_lines e = filter (\<lambda>line. line \<noteq> []) (split_on nl (group g 4))"
    by (auto simp: parse_srt_def entry_of_match_def)
  then have "line \<noteq> []" and "line \<in> set (split_on nl (group g 4))"
    using l by simp_all
  then show "line \<noteq> []" and "nl \<notin> set line"
    by (simp_all add: split_on_no_sep)
qed

theorem parsed_text_lines_witness:
  "parse_srt
       (''1'' @ [nl] @ ''00:00:01,000 --> 00:00:02,000'' @ [nl] @ ''A'' @ [nl] @ [nl]
        @ ''2'' @ [nl] @ ''00:00:02,000 --> 00:00:03,000'' @ [nl] @ ''B'' @ [nl] @ ''   '' @ [nl])
     = [\<lparr>number = 1, start_time = ''00:00:01,000'', end_time = ''00:00:02,000'',
          text_lines = [''A'']\<rparr>,
        \<lparr>number = 2, start_time = ''00:00:02,000'', end_time = ''00:00:03,000'',
          text_lines = [''B'', ''   '']\<rparr>]
   \<and> map (\<lambda>g. group g 4)
       (finditer block_pattern
       (''1'' @ [nl] @ ''00:00:01,000 --> 00:00:02,000'' @ [nl] @ ''A'' @ [nl] @ [nl]
        @ ''2'' @ [nl] @ ''00:00:02,000 --> 00:00:03,000'' @ [nl] @ ''B'' @ [nl] @ ''   '' @ [nl]))
     = [''A'' @ [nl], ''B'' @ [nl] @ ''   '' @ [nl]]"
  using parsed_text_lines
    [of "''1'' @ [nl] @ ''00:00:01,000 --> 00:00:02,000'' @ [nl] @ ''A'' @ [nl] @ [nl]
        @ ''2'' @ [nl] @ ''00:00:02,000 --> 00:00:03,000'' @ [nl] @ ''B'' @ [nl] @ ''   '' @ [nl]"]
  by code_simp

text \<open>
  C8: for every list of entries whose times have the timestamp shape, whose entries have a
  text line, whose text lines have a character that is not whitespace and no newline, and
  in which no entry starts with the line that ends its predecessor: parsing the formatted
  list and cleaning the result gives the entries back with the numbers 1, 2, ... in order;
  that is the list itself when its numbers are 1, 2, ... already.
\<close>

theorem round_trip:
  assumes "list_all entry_well_formed entries" and "no_adjacent_duplicate entries"
  shows "perform_deep_cleaning (parse_srt (format_srt entries)) = renumber 1 entries
         \<and> (map number entries = map int [1..<Suc (length entries)] \<longrightarrow>
              perform_deep_cleaning (parse_srt (format_srt entries)) = entries)"
proof -
  let ?parsed = "map (\<lambda>e. e\<lparr>number := \<bar>number e\<bar>\<rparr>) entries"
  have p: "parse_srt (format_srt entries) = ?parsed"
    using assms(1) by (rule parse_format)
  have "perform_deep_cleaning ?parsed = renumber 1 ?parsed"
    using assms by (intro deep_cleaning_id) (simp_all add: list_all_iff no_adjacent_duplicate_number)
  then have r: "perform_deep_cleaning (parse_srt (format_srt entries)) = renumber 1 entries"
    by (simp add: p renumber_number)
  have "map int [1..<Suc n] = map (\<lambda>k. 1 + int k) [0..<n]" for n
    by (induction n) auto
  then have "renumber 1 entries = entries"
    if "map number entries = map int [1..<Suc (length entries)]"
    using that by (intro renumber_id) simp
  then show ?thesis using r by simp
qed

theorem round_trip_witness:
  "list_all entry_well_formed
     [\<lparr>number = 7, start_time = ''00:00:01,000'', end_time = ''00:00:02,000'', text_lines = [''A'', '' B'']\<rparr>,
      \<lparr>number = - 3, start_time = ''00:00:02,000'', end_time = ''00:00:03,500'', text_lines = [''12'']\<rparr>]
   \<and> no_adjacent_duplicate
     [\<lparr>number = 7, start_time = ''00:00:01,000'', end_time = ''00:00:02,000'', text_lines = [''A'', '' B'']\<rparr>,
      \<lparr>number = - 3, start_time = ''00:00:02,000'', end_time = ''00:00:03,500'', text_lines = [''12'']\<rparr>]
   \<and> perform_deep_cleaning (parse_srt (format_srt
     [\<lparr>number = 7, start_time = ''00:00:01,000'', end_time = ''00:00:02,000'', text_lines = [''A'', '' B'']\<rparr>,
      \<lparr>number = - 3, start_time = ''00:00:02,000'', end_time = ''00:00:03,500'', text_lines = [''12'']\<rparr>]))
     = [\<lparr>number = 1, start_time = ''00:00:01,000'', end_time = ''00:00:02,000'', text_lines = [''A'', '' B'']\<rparr>,
        \<lparr>number = 2, start_time = ''00:00:02,000'', end_time = ''00:00:03,500'', text_lines = [''12'']\<rparr>]"
  (is "?wf \<and> ?nd \<and> ?out")
proof -
  have wf: ?wf by code_simp
  have nd: ?nd by code_simp
  have rn: "renumber 1
     [\<lparr>number = 7, start_time = ''00:00:01,000'', end_time = ''00:00:02,000'', text_lines = [''A'', '' B'']\<rparr>,
      \<lparr>number = - 3, start_time = ''00:00:02,000'', end_time = ''00:00:03,500'', text_lines = [''12'']\<rparr>]
     = [\<lparr>number = 1, start_time = ''00:00:01,000'', end_time = ''00:00:02,000'', text_lines = [''A'', '' B'']\<rparr>,
        \<lparr>number = 2, start_time = ''00:00:02,000'', end_time = ''00:00:03,500'', text_lines = [''12'']\<rparr>]"
    by simp
  have ?out
    by (rule trans [OF round_trip [OF wf nd, THEN conjunct1] rn])
  with wf nd show ?thesis by (intro conjI)
qed

text \<open>
  C9: the output of \<open>perform_deep_cleaning\<close> is embedded in the input in list order; each
  output entry has the start and end time of the input entry it comes from and text lines
  that are a suffix of that entry's; the output is not longer than the input.
\<close>

theorem deep_cleaning_subsequence:
  "list_emb trimmed_of (perform_deep_cleaning entries) entries
   \<and> length (perform_deep_cleaning entries) \<le> length entries"
proof -
  have "list_emb trimmed_of (perform_deep_cleaning entries) entries"
    unfolding perform_deep_cleaning_def Let_def
    by (intro renumber_emb filter_emb clean_loop_emb)
  then show ?thesis by (simp add: list_emb_length)
qed

text \<open>
  C10: the run exits with status 1 exactly when the argument vector has not three elements
  (the script and two arguments) or an exception is raised inside \<^verbatim>\<open>try\<close>. In the first
  case it prints the usage line and attempts no file access; in the second it prints
  \<open>Error processing file:\<close> and the message. Otherwise it prints the success line and the
  line of the two counts, and exits with status 0.
\<close>

theorem driver_exit_status:
  "(exit_status (main read_file write_file argv) = 1
      \<longleftrightarrow> length argv \<noteq> 3 \<or> processing_error read_file write_file argv \<noteq> None)
   \<and> (length argv \<noteq> 3 \<longrightarrow>
         stdout (main read_file write_file argv) =
           [''Usage: python subtitle_cleaner_v2.py input.srt output.srt'']
         \<and> accesses (main read_file write_file argv) = [])
   \<and> (length argv = 3 \<longrightarrow>
        (case processing_error read_file write_file argv of
           Some msg \<Rightarrow>
             stdout (main read_file write_file argv) = [''Error processing file: '' @ msg]
             \<and> exit_status (main read_file write_file argv) = 1
         | None \<Rightarrow>
             stdout (main read_file write_file argv) = success_lines read_file argv
             \<and> exit_status (main read_file write_file argv) = 0))"
  by (auto simp: main_def processing_error_def success_lines_def Let_def
      split: sum.splits option.splits)

theorem driver_exit_status_witness:
  "main (\<lambda>path. Inl ''unused'') (\<lambda>path content. None) [''subtitle_cleaner.py'', ''in.srt'']
     = \<lparr>stdout = [''Usage: python subtitle_cleaner_v2.py input.srt output.srt''],
        exit_status = 1, accesses = []\<rparr>
   \<and> main (\<lambda>path. Inl ''No such file'') (\<lambda>path content. None)
       [''subtitle_cleaner.py'', ''in.srt'', ''out.srt'']
     = \<lparr>stdout = [''Error processing file: No such file''],
        exit_status = 1, accesses = [Read_file ''in.srt'']\<rparr>
   \<and> processing_error (\<lambda>path. Inl ''No such file'') (\<lambda>path content. None)
       [''subtitle_cleaner.py'', ''in.srt'', ''out.srt''] = Some ''No such file''
   \<and> exit_status (main
         (\<lambda>path. Inr (''1'' @ [nl] @ ''00:00:01,000 --> 00:00:02,000'' @ [nl] @ ''X'' @ [nl] @ [nl]
                        @ ''2'' @ [nl] @ ''00:00:02,000 --> 00:00:03,000'' @ [nl] @ ''X'' @ [nl]))
         (\<lambda>path content. None)
         [''subtitle_cleaner.py'', ''in.srt'', ''out.srt'']) = 0
   \<and> stdout (main
         (\<lambda>path. Inr (''1'' @ [nl] @ ''00:00:01,000 --> 00:00:02,000'' @ [nl] @ ''X'' @ [nl] @ [nl]
                        @ ''2'' @ [nl] @ ''00:00:02,000 --> 00:00:03,000'' @ [nl] @ ''X'' @ [nl]))
         (\<lambda>path content. None)
         [''subtitle_cleaner.py'', ''in.srt'', ''out.srt''])
     = [''Successfully cleaned subtitles from in.srt to out.srt'',
        ''Original entries: 2, Cleaned entries: 1'']"
  using
    driver_exit_status [of "\<lambda>path. Inl ''unused''" "\<lambda>path content. None"
      "[''subtitle_cleaner.py'', ''in.srt'']"]
    driver_exit_status [of "\<lambda>path. Inl ''No such file''" "\<lambda>path content. None"
      "[''subtitle_cleaner.py'', ''in.srt'', ''out.srt'']"]
    driver_exit_status [of
      "\<lambda>path. Inr (''1'' @ [nl] @ ''00:00:01,000 --> 00:00:02,000'' @ [nl] @ ''X'' @ [nl] @ [nl]
                        @ ''2'' @ [nl] @ ''00:00:02,000 --> 00:00:03,000'' @ [nl] @ ''X'' @ [nl])"
      "\<lambda>path content. None"
      "[''subtitle_cleaner.py'', ''in.srt'', ''out.srt'']"]
  by code_simp

end
